theory Spec2Isabelle
  imports Complex_Main "HOL-Library.AList" "HOL-Library.Sublist" "HOL-Library.Product_Lexorder"
begin

section \<open>JavaScript values and objects\<close>

text \<open>
  The program is a single React component (\<^verbatim>\<open>src/App.jsx\<close>).  Its data are plain
  JavaScript objects.  A property of an object holds a string or a number, may hold
  \<^verbatim>\<open>undefined\<close> or \<^verbatim>\<open>null\<close>, or may be missing.  The embedding vectors and the
  similarity scores are IEEE doubles, modelled with their rounding, their infinities and
  \<^verbatim>\<open>NaN\<close>.  The numbers of the metrics (severity, degree centrality, risk score) are
  modelled as real numbers with exact arithmetic.  A string is the sequence of its UTF-8
  bytes; case folding is that of ASCII.
\<close>

datatype 'a js = Undefined | Null | Val 'a

text \<open>
  An object is given by its string-valued and its number-valued properties.  In the records
  that the ingestion reads and in the entities it stores, \<^verbatim>\<open>severity\<close> is the number-valued
  one.
\<close>

record jsobj =
  strs :: "string \<rightharpoonup> string js"
  nums :: "string \<rightharpoonup> real js"

definition empty_obj :: jsobj where
  "empty_obj = \<lparr>strs = Map.empty, nums = Map.empty\<rparr>"

text \<open>Property reads \<^verbatim>\<open>o.f\<close>: a missing property reads as \<^verbatim>\<open>undefined\<close>.\<close>

definition gett :: "jsobj \<Rightarrow> string \<Rightarrow> string js" where
  "gett obj f = (case strs obj f of None \<Rightarrow> Undefined | Some v \<Rightarrow> v)"

definition getn :: "jsobj \<Rightarrow> string \<Rightarrow> real js" where
  "getn obj f = (case nums obj f of None \<Rightarrow> Undefined | Some v \<Rightarrow> v)"

text \<open>Truthiness of a string-valued property: \<^verbatim>\<open>undefined\<close>, \<^verbatim>\<open>null\<close> and \<^verbatim>\<open>""\<close> are falsy.\<close>

fun truthy :: "string js \<Rightarrow> bool" where
  "truthy (Val s) = (s \<noteq> [])"
| "truthy Undefined = False"
| "truthy Null = False"

text \<open>Conversion inside a template literal \<^verbatim>\<open>`${v}`\<close>.\<close>

fun tpl :: "string js \<Rightarrow> string" where
  "tpl (Val s) = s"
| "tpl Undefined = ''undefined''"
| "tpl Null = ''null''"

text \<open>\<^verbatim>\<open>v || d\<close> with a string default, and \<^verbatim>\<open>v ?? d\<close>.\<close>

definition or_str :: "string js \<Rightarrow> string \<Rightarrow> string" where
  "or_str v d = (if truthy v then tpl v else d)"

fun nullish :: "'a js \<Rightarrow> 'a \<Rightarrow> 'a" where
  "nullish (Val a) d = a"
| "nullish Undefined d = d"
| "nullish Null d = d"

text \<open>\<^verbatim>\<open>String.prototype.toLowerCase\<close> and \<^verbatim>\<open>String.prototype.includes\<close>, on ASCII.\<close>

definition lower_char :: "char \<Rightarrow> char" where
  "lower_char c =
     (case map_of (zip ''ABCDEFGHIJKLMNOPQRSTUVWXYZ'' ''abcdefghijklmnopqrstuvwxyz'') c of
        None \<Rightarrow> c
      | Some l \<Rightarrow> l)"

definition toLowerCase :: "string \<Rightarrow> string" where
  "toLowerCase s = map lower_char s"

fun includes_str :: "string \<Rightarrow> string \<Rightarrow> bool" where
  "includes_str [] t = (t = [])"
| "includes_str (c # s) t = (prefix t (c # s) \<or> includes_str s t)"

section \<open>Math helpers\<close>

text \<open>
  A JavaScript number is a finite double, an infinity or \<^verbatim>\<open>NaN\<close>; the two zeros are not
  told apart.  An operation on finite numbers gives the exact result rounded to the nearest
  double, ties to the even significand: doubles are spaced \<^verbatim>\<open>2^-1074\<close> apart below
  \<^verbatim>\<open>2^-1022\<close> and \<^verbatim>\<open>2^(e-52)\<close> apart from \<^verbatim>\<open>2^e\<close> up to \<^verbatim>\<open>2^(e+1)\<close>, and a result
  of magnitude \<^verbatim>\<open>2^1024\<close> or more is an infinity.  \<^verbatim>\<open>!x\<close> holds of 0 and of \<^verbatim>\<open>NaN\<close>.
\<close>

datatype f64 = Finite real | Inf bool | NaN

definition round_even :: "real \<Rightarrow> int" where
  "round_even y =
     (let f = \<lfloor>y\<rfloor>; d = y - of_int f
      in if d < 1/2 then f else if 1/2 < d then f + 1 else if even f then f else f + 1)"

definition quantum :: "real \<Rightarrow> real" where
  "quantum x =
     (if \<bar>x\<bar> < 1 / 2 ^ 1022 then 1 / 2 ^ 1074 else 2 powi (\<lfloor>log 2 \<bar>x\<bar>\<rfloor> - 52))"

definition round64 :: "real \<Rightarrow> f64" where
  "round64 x =
     (let q = quantum x; y = of_int (round_even (x / q)) * q
      in if 2 ^ 1024 \<le> \<bar>y\<bar> then Inf (0 < x) else Finite y)"

fun fmul :: "f64 \<Rightarrow> f64 \<Rightarrow> f64" where
  "fmul (Finite a) (Finite b) = round64 (a * b)"
| "fmul (Finite a) (Inf p) = (if a = 0 then NaN else Inf (p = (0 < a)))"
| "fmul (Inf p) (Finite b) = (if b = 0 then NaN else Inf (p = (0 < b)))"
| "fmul (Inf p) (Inf q) = Inf (p = q)"
| "fmul NaN y = NaN"
| "fmul x NaN = NaN"

fun fadd :: "f64 \<Rightarrow> f64 \<Rightarrow> f64" where
  "fadd (Finite a) (Finite b) = round64 (a + b)"
| "fadd (Finite a) (Inf p) = Inf p"
| "fadd (Inf p) (Finite b) = Inf p"
| "fadd (Inf p) (Inf q) = (if p = q then Inf p else NaN)"
| "fadd NaN y = NaN"
| "fadd x NaN = NaN"

fun fdiv :: "f64 \<Rightarrow> f64 \<Rightarrow> f64" where
  "fdiv (Finite a) (Finite b) =
     (if b = 0 then (if a = 0 then NaN else Inf (0 < a)) else round64 (a / b))"
| "fdiv (Finite a) (Inf p) = Finite 0"
| "fdiv (Inf p) (Finite b) = Inf (p = (0 \<le> b))"
| "fdiv (Inf p) (Inf q) = NaN"
| "fdiv NaN y = NaN"
| "fdiv x NaN = NaN"

fun fsqrt :: "f64 \<Rightarrow> f64" where
  "fsqrt (Finite a) = (if a < 0 then NaN else round64 (sqrt a))"
| "fsqrt (Inf p) = (if p then Inf True else NaN)"
| "fsqrt NaN = NaN"

fun fsub :: "f64 \<Rightarrow> f64 \<Rightarrow> f64" where
  "fsub (Finite a) (Finite b) = round64 (a - b)"
| "fsub (Finite a) (Inf p) = Inf (\<not> p)"
| "fsub (Inf p) (Finite b) = Inf p"
| "fsub (Inf p) (Inf q) = (if p = q then NaN else Inf p)"
| "fsub NaN y = NaN"
| "fsub x NaN = NaN"

fun falsy :: "f64 \<Rightarrow> bool" where
  "falsy (Finite a) = (a = 0)"
| "falsy (Inf p) = False"
| "falsy NaN = True"

text \<open>The comparisons \<^verbatim>\<open>x > 0\<close> and \<^verbatim>\<open>x <= y\<close>; each is false when \<^verbatim>\<open>NaN\<close> takes part.\<close>

fun fpos :: "f64 \<Rightarrow> bool" where
  "fpos (Finite a) = (0 < a)"
| "fpos (Inf p) = p"
| "fpos NaN = False"


text \<open>
  \<^verbatim>\<open>dot\<close> runs over the shared prefix of the two arrays, \<^verbatim>\<open>norm\<close> over the whole array;
  both accumulate from the left into \<^verbatim>\<open>s\<close>, starting at 0.
\<close>

definition dot64 :: "f64 list \<Rightarrow> f64 list \<Rightarrow> f64" where
  "dot64 a b = fold (\<lambda>(x, y) s. fadd s (fmul x y)) (zip a b) (Finite 0)"

definition norm64 :: "f64 list \<Rightarrow> f64" where
  "norm64 a = fsqrt (fold (\<lambda>x s. fadd s (fmul x x)) a (Finite 0))"

definition cosineSim64 :: "f64 list \<Rightarrow> f64 list \<Rightarrow> f64" where
  "cosineSim64 a b =
     (let na = norm64 a; nb = norm64 b
      in if falsy na \<or> falsy nb then Finite 0 else fdiv (dot64 a b) (fmul na nb))"


definition norm_v :: "real list \<Rightarrow> real" where
  "norm_v a = sqrt (fold (\<lambda>x s. s + x * x) a 0)"


section \<open>Application state\<close>

record edge =
  source :: string
  target :: string
  relation :: string

text \<open>
  The two external providers are the only operations that suspend and the only ones that
  can fail.  Each is a function of the request text and of the state of the outside world,
  returning either the error message of the thrown \<^verbatim>\<open>Error\<close> or the result, and the
  next state of the world.  The model also logs every request.
\<close>

datatype call = EmbedCall string | GenerateCall string

type_synonym 'w embedder = "string \<Rightarrow> 'w \<Rightarrow> (string + f64 list) \<times> 'w"
type_synonym 'w generator = "string \<Rightarrow> 'w \<Rightarrow> (string + string) \<times> 'w"

text \<open>
  A retrieved context \<^verbatim>\<open>{ ...n, similarity: s.score }\<close> is the entity \<^verbatim>\<open>n\<close> with one more
  property; the model keeps the entity and the score side by side.
\<close>

record hit =
  entity :: jsobj
  similarity :: f64

text \<open>
  \<^verbatim>\<open>nodesMap\<close> and \<^verbatim>\<open>embeddingsRef.current\<close> are objects keyed by node identifier.  They
  are association lists in the order of \<^verbatim>\<open>Object.keys\<close>, which for these keys (none is
  an array index: each starts with \<^verbatim>\<open>paper:\<close>, \<^verbatim>\<open>event:\<close>, \<^verbatim>\<open>policy:\<close> or
  \<^verbatim>\<open>location:\<close>) is the order of first insertion.
\<close>

record 'w app =
  nodesMap :: "(string \<times> jsobj) list"
  edges :: "edge list"
  embeddings :: "(string \<times> f64 list) list"
  error :: string
  loadingIngest :: bool
  selectedNodeId :: "string option"
  selectedNodeSummary :: string
  loadingSummary :: bool
  ragQuery :: string
  ragAnswer :: string
  ragContexts :: "hit list"
  loadingRag :: bool
  world :: 'w
  calls :: "call list"

datatype outcome = Done | Thrown string

definition getEmbedding :: "'w embedder \<Rightarrow> string \<Rightarrow> 'w app \<Rightarrow> (string + f64 list) \<times> 'w app" where
  "getEmbedding embedF text s =
     (let (r, w) = embedF text (world s)
      in (r, s\<lparr>world := w, calls := calls s @ [EmbedCall text]\<rparr>))"

definition gptPlainText :: "'w generator \<Rightarrow> string \<Rightarrow> 'w app \<Rightarrow> (string + string) \<times> 'w app" where
  "gptPlainText generateF prompt s =
     (let (r, w) = generateF prompt (world s)
      in (r, s\<lparr>world := w, calls := calls s @ [GenerateCall prompt]\<rparr>))"

section \<open>Graph helpers\<close>

text \<open>The updater of \<^verbatim>\<open>setNodesMap\<close> in \<^verbatim>\<open>addNode\<close>: \<^verbatim>\<open>{ ...existing, id, ...attrs }\<close>.\<close>

definition merge_node :: "jsobj \<Rightarrow> string \<Rightarrow> jsobj \<Rightarrow> jsobj" where
  "merge_node existing i attrs =
     \<lparr>strs = (strs existing)(''id'' \<mapsto> Val i) ++ strs attrs, nums = nums existing ++ nums attrs\<rparr>"

definition upsert_node :: "string \<Rightarrow> jsobj \<Rightarrow> (string \<times> jsobj) list \<Rightarrow> (string \<times> jsobj) list" where
  "upsert_node i attrs prev =
     (let existing = (case map_of prev i of None \<Rightarrow> empty_obj | Some n \<Rightarrow> n);
          updated = merge_node existing i attrs
      in AList.update i updated prev)"

definition addNode :: "string \<Rightarrow> jsobj \<Rightarrow> f64 list option \<Rightarrow> 'w app \<Rightarrow> 'w app" where
  "addNode i attrs embedding s =
     (let s1 = s\<lparr>nodesMap := upsert_node i attrs (nodesMap s)\<rparr>
      in case embedding of
           None \<Rightarrow> s1
         | Some v \<Rightarrow> s1\<lparr>embeddings := AList.update i v (embeddings s1)\<rparr>)"

definition addEdge :: "string \<Rightarrow> string \<Rightarrow> string \<Rightarrow> 'w app \<Rightarrow> 'w app" where
  "addEdge src tgt rel s =
     s\<lparr>edges := edges s @ [\<lparr>source = src, target = tgt, relation = rel\<rparr>]\<rparr>"

definition resetGraph :: "'w app \<Rightarrow> 'w app" where
  "resetGraph s =
     s\<lparr>nodesMap := [], edges := [], embeddings := [], selectedNodeId := None,
       selectedNodeSummary := [], ragAnswer := [], ragContexts := []\<rparr>"

section \<open>Ingestion\<close>

definition paper_text :: "jsobj \<Rightarrow> string" where
  "paper_text p = tpl (gett p ''title'') @ '' - '' @ tpl (gett p ''summary'')"

definition paper_id :: "jsobj \<Rightarrow> string" where
  "paper_id p = ''paper:'' @ tpl (gett p ''id'')"

definition paper_attrs :: "jsobj \<Rightarrow> jsobj" where
  "paper_attrs p =
     \<lparr>strs = [''type'' \<mapsto> Val ''Paper'', ''title'' \<mapsto> gett p ''title'',
             ''summary'' \<mapsto> gett p ''summary'', ''published'' \<mapsto> gett p ''published''],
      nums = Map.empty\<rparr>"

definition event_text :: "jsobj \<Rightarrow> string" where
  "event_text e =
     tpl (gett e ''name'') @ ''. '' @ tpl (gett e ''description'') @ ''. Region: ''
     @ or_str (gett e ''region'') ''unknown'' @ ''. Asset: ''
     @ or_str (gett e ''asset_type'') ''unknown'' @ ''.''"

definition event_id :: "jsobj \<Rightarrow> string" where
  "event_id e = ''event:'' @ tpl (gett e ''external_id'')"

definition event_attrs :: "jsobj \<Rightarrow> jsobj" where
  "event_attrs e =
     \<lparr>strs = [''type'' \<mapsto> Val ''Event'', ''title'' \<mapsto> gett e ''name'',
             ''summary'' \<mapsto> gett e ''description'', ''start_time'' \<mapsto> gett e ''start_time'',
             ''end_time'' \<mapsto> gett e ''end_time'', ''region'' \<mapsto> gett e ''region'',
             ''asset_type'' \<mapsto> gett e ''asset_type''],
      nums = [''severity'' \<mapsto> Val (nullish (getn e ''severity'') 0.5)]\<rparr>"

definition location_attrs :: "string js \<Rightarrow> jsobj" where
  "location_attrs r = \<lparr>strs = [''type'' \<mapsto> Val ''Location'', ''name'' \<mapsto> r], nums = Map.empty\<rparr>"

definition policy_text :: "jsobj \<Rightarrow> string" where
  "policy_text p =
     tpl (gett p ''name'') @ ''. '' @ tpl (gett p ''description'') @ ''. Jurisdiction: ''
     @ or_str (gett p ''jurisdiction'') ''unknown'' @ ''.''"

definition policy_id :: "jsobj \<Rightarrow> string" where
  "policy_id p = ''policy:'' @ tpl (gett p ''external_id'')"

definition policy_attrs :: "jsobj \<Rightarrow> jsobj" where
  "policy_attrs p =
     \<lparr>strs = [''type'' \<mapsto> Val ''Policy'', ''title'' \<mapsto> gett p ''name'',
             ''summary'' \<mapsto> gett p ''description'', ''jurisdiction'' \<mapsto> gett p ''jurisdiction'',
             ''start_date'' \<mapsto> gett p ''start_date'', ''end_date'' \<mapsto> gett p ''end_date'',
             ''category'' \<mapsto> gett p ''category''],
      nums = Map.empty\<rparr>"

text \<open>The steps of one record after its embedding has arrived.\<close>

definition store_paper :: "jsobj \<Rightarrow> f64 list \<Rightarrow> 'w app \<Rightarrow> 'w app" where
  "store_paper p emb s = addNode (paper_id p) (paper_attrs p) (Some emb) s"

definition store_event :: "jsobj \<Rightarrow> f64 list \<Rightarrow> 'w app \<Rightarrow> 'w app" where
  "store_event e emb s =
     (let nodeId = event_id e;
          s1 = addNode nodeId (event_attrs e) (Some emb) s
      in if truthy (gett e ''region'')
         then (let locId = ''location:'' @ tpl (gett e ''region'')
               in addEdge nodeId locId ''OCCURS_IN''
                    (addNode locId (location_attrs (gett e ''region'')) None s1))
         else s1)"

definition store_policy :: "jsobj \<Rightarrow> f64 list \<Rightarrow> 'w app \<Rightarrow> 'w app" where
  "store_policy p emb s =
     (let nodeId = policy_id p;
          s1 = addNode nodeId (policy_attrs p) (Some emb) s
      in if truthy (gett p ''jurisdiction'')
         then (let locId = ''location:'' @ tpl (gett p ''jurisdiction'')
               in addEdge nodeId locId ''APPLIES_TO''
                    (addNode locId (location_attrs (gett p ''jurisdiction'')) None s1))
         else s1)"

text \<open>
  The three \<^verbatim>\<open>for ... of\<close> loops.  A rejected \<^verbatim>\<open>await getEmbedding(text)\<close> leaves the
  loop with the state as it is at that moment.
\<close>

fun ingest_papers :: "'w embedder \<Rightarrow> jsobj list \<Rightarrow> 'w app \<Rightarrow> outcome \<times> 'w app" where
  "ingest_papers embedF [] s = (Done, s)"
| "ingest_papers embedF (p # ps) s =
     (case getEmbedding embedF (paper_text p) s of
        (Inl msg, s1) \<Rightarrow> (Thrown msg, s1)
      | (Inr emb, s1) \<Rightarrow> ingest_papers embedF ps (store_paper p emb s1))"

fun ingest_events :: "'w embedder \<Rightarrow> jsobj list \<Rightarrow> 'w app \<Rightarrow> outcome \<times> 'w app" where
  "ingest_events embedF [] s = (Done, s)"
| "ingest_events embedF (e # es) s =
     (case getEmbedding embedF (event_text e) s of
        (Inl msg, s1) \<Rightarrow> (Thrown msg, s1)
      | (Inr emb, s1) \<Rightarrow> ingest_events embedF es (store_event e emb s1))"

fun ingest_policies :: "'w embedder \<Rightarrow> jsobj list \<Rightarrow> 'w app \<Rightarrow> outcome \<times> 'w app" where
  "ingest_policies embedF [] s = (Done, s)"
| "ingest_policies embedF (p # ps) s =
     (case getEmbedding embedF (policy_text p) s of
        (Inl msg, s1) \<Rightarrow> (Thrown msg, s1)
      | (Inr emb, s1) \<Rightarrow> ingest_policies embedF ps (store_policy p emb s1))"

text \<open>The keyword link: the nested loops over papers and events.\<close>

definition mentions :: "jsobj \<Rightarrow> jsobj \<Rightarrow> bool" where
  "mentions p e =
     (let lowerTitle = toLowerCase (or_str (gett p ''title'') []);
          lowerDesc = toLowerCase (or_str (gett e ''description'') [])
      in includes_str lowerTitle ''blackout'' \<and> includes_str lowerDesc ''outage'')"

fun link_events :: "jsobj \<Rightarrow> jsobj list \<Rightarrow> 'w app \<Rightarrow> 'w app" where
  "link_events p [] s = s"
| "link_events p (e # es) s =
     link_events p es
       (if mentions p e then addEdge (paper_id p) (event_id e) ''MENTIONS_EVENT'' s else s)"

fun link_papers :: "jsobj list \<Rightarrow> jsobj list \<Rightarrow> 'w app \<Rightarrow> 'w app" where
  "link_papers [] es s = s"
| "link_papers (p # ps) es s = link_papers ps es (link_events p es s)"

text \<open>The body of the \<^verbatim>\<open>try\<close> block after \<^verbatim>\<open>resetGraph()\<close> and the three parses.\<close>

definition ingest_records ::
  "'w embedder \<Rightarrow> jsobj list \<Rightarrow> jsobj list \<Rightarrow> jsobj list \<Rightarrow> 'w app \<Rightarrow> outcome \<times> 'w app" where
  "ingest_records embedF papers events policies s =
     (case ingest_papers embedF papers s of
        (Thrown msg, s1) \<Rightarrow> (Thrown msg, s1)
      | (Done, s1) \<Rightarrow>
          (case ingest_events embedF events s1 of
             (Thrown msg, s2) \<Rightarrow> (Thrown msg, s2)
           | (Done, s2) \<Rightarrow>
               (case ingest_policies embedF policies s2 of
                  (Thrown msg, s3) \<Rightarrow> (Thrown msg, s3)
                | (Done, s3) \<Rightarrow> (Done, link_papers papers events s3))))"

text \<open>
  \<^verbatim>\<open>ingestAll\<close>.  The three text areas are given by what \<^verbatim>\<open>JSON.parse\<close> makes of them:
  \<^verbatim>\<open>None\<close> when it throws, the array of records otherwise.
\<close>

definition missing_key_msg :: string where
  "missing_key_msg = ''VITE_OPENAI_API_KEY is missing. Add it in a .env file at project root.''"

definition ingest_try ::
  "'w embedder \<Rightarrow> jsobj list option \<Rightarrow> jsobj list option \<Rightarrow> jsobj list option \<Rightarrow> 'w app
     \<Rightarrow> outcome \<times> 'w app" where
  "ingest_try embedF papersJson eventsJson policiesJson s =
     (let s0 = resetGraph s
      in case papersJson of
           None \<Rightarrow> (Thrown ''Papers JSON is invalid.'', s0)
         | Some papers \<Rightarrow>
             (case eventsJson of
                None \<Rightarrow> (Thrown ''Events JSON is invalid.'', s0)
              | Some events \<Rightarrow>
                  (case policiesJson of
                     None \<Rightarrow> (Thrown ''Policies JSON is invalid.'', s0)
                   | Some policies \<Rightarrow> ingest_records embedF papers events policies s0)))"

definition ingestAll ::
  "string js \<Rightarrow> 'w embedder \<Rightarrow> jsobj list option \<Rightarrow> jsobj list option \<Rightarrow> jsobj list option
     \<Rightarrow> 'w app \<Rightarrow> 'w app" where
  "ingestAll OPENAI_API_KEY embedF papersJson eventsJson policiesJson s =
     (if \<not> truthy OPENAI_API_KEY then s\<lparr>error := missing_key_msg\<rparr>
      else
        (case ingest_try embedF papersJson eventsJson policiesJson
                (s\<lparr>error := [], loadingIngest := True\<rparr>) of
           (Done, s1) \<Rightarrow> s1\<lparr>loadingIngest := False\<rparr>
         | (Thrown msg, s1) \<Rightarrow>
             s1\<lparr>error := (if msg = [] then ''Ingestion failed.'' else msg),
                loadingIngest := False\<rparr>))"

section \<open>Metrics\<close>

text \<open>
  The \<^verbatim>\<open>useMemo\<close> over \<^verbatim>\<open>nodesMap\<close> and \<^verbatim>\<open>edges\<close>.  The object \<^verbatim>\<open>deg\<close> is a map
  from identifiers to counts: the first loop sets \<^verbatim>\<open>deg[id] = 0\<close> for every key of
  \<^verbatim>\<open>nodesMap\<close>; the second adds one per edge end, guarded by \<^verbatim>\<open>deg[k] != null\<close>.
\<close>

definition deg_init :: "string list \<Rightarrow> (string \<rightharpoonup> nat)" where
  "deg_init ids = fold (\<lambda>i d. d(i \<mapsto> 0)) ids Map.empty"

definition bump :: "string \<Rightarrow> (string \<rightharpoonup> nat) \<Rightarrow> (string \<rightharpoonup> nat)" where
  "bump k d = (case d k of None \<Rightarrow> d | Some n \<Rightarrow> d(k \<mapsto> n + 1))"

definition deg_edge :: "edge \<Rightarrow> (string \<rightharpoonup> nat) \<Rightarrow> (string \<rightharpoonup> nat)" where
  "deg_edge e d = bump (target e) (bump (source e) d)"

definition degrees :: "(string \<times> jsobj) list \<Rightarrow> edge list \<Rightarrow> (string \<rightharpoonup> nat)" where
  "degrees nodes es = fold deg_edge es (deg_init (map fst nodes))"

definition baseRisk :: "jsobj \<Rightarrow> real" where
  "baseRisk node =
     (if gett node ''type'' = Val ''Event'' then nullish (getn node ''severity'') 0.5 else 0.3)"

record metric =
  degree_centrality :: real
  risk_score :: real

text \<open>
  The last loop reads \<^verbatim>\<open>nodesMap[id]\<close> and \<^verbatim>\<open>deg[id]\<close> for each key \<^verbatim>\<open>id\<close> of
  \<^verbatim>\<open>nodesMap\<close>: it runs over the entries.  \<^verbatim>\<open>deg[id]\<close> is defined for each of them
  (lemma \<open>degrees_defined\<close> below).
\<close>

definition metrics :: "(string \<times> jsobj) list \<Rightarrow> edge list \<Rightarrow> (string \<times> metric) list" where
  "metrics nodes es =
     (let ids = map fst nodes;
          deg = degrees nodes es;
          N = max (real (length ids) - 1) 1
      in map (\<lambda>(i, node).
                let degreeC = real (the (deg i)) / N;
                    risk = 0.5 * baseRisk node + 0.5 * degreeC
                in (i, \<lparr>degree_centrality = degreeC, risk_score = risk\<rparr>))
             nodes)"

section \<open>Retrieval and question answering\<close>

text \<open>
  \<^verbatim>\<open>Array.prototype.sort\<close> with a comparator.  The sort is stable and puts \<^verbatim>\<open>x\<close>
  after \<^verbatim>\<open>y\<close> only when the comparator gives a number above 0 for \<^verbatim>\<open>(x, y)\<close>; a
  \<^verbatim>\<open>NaN\<close> from the comparator counts as 0.  When the comparator orders the elements
  consistently there is one such ordering, and the model computes it by insertion.  When it
  does not (here: when a score is \<^verbatim>\<open>NaN\<close>) the standard leaves the order to the
  implementation; the model still inserts, and nothing below rests on the order it gives
  then.
\<close>

fun insert_sorted :: "('a \<Rightarrow> 'a \<Rightarrow> f64) \<Rightarrow> 'a \<Rightarrow> 'a list \<Rightarrow> 'a list" where
  "insert_sorted cmp x [] = [x]"
| "insert_sorted cmp x (y # ys) =
     (if fpos (cmp x y) then y # insert_sorted cmp x ys else x # y # ys)"

definition sort_js :: "('a \<Rightarrow> 'a \<Rightarrow> f64) \<Rightarrow> 'a list \<Rightarrow> 'a list" where
  "sort_js cmp xs = foldr (insert_sorted cmp) xs []"

text \<open>
  \<^verbatim>\<open>searchGraph\<close>.  The scores are the doubles that \<^verbatim>\<open>cosineSim\<close> computes; they are
  sorted with the comparator \<^verbatim>\<open>(a, b) => b.score - a.score\<close>.  \<^verbatim>\<open>topK\<close> is a count
  (the one caller passes 8), so \<^verbatim>\<open>slice(0, topK)\<close> takes the first \<^verbatim>\<open>topK\<close>.
\<close>

definition score_all :: "f64 list \<Rightarrow> (string \<times> f64 list) list \<Rightarrow> (string \<times> f64) list" where
  "score_all qEmb idx = map (\<lambda>(i, v). (i, cosineSim64 qEmb v)) idx"

definition by_score :: "string \<times> f64 \<Rightarrow> string \<times> f64 \<Rightarrow> f64" where
  "by_score a b = fsub (snd b) (snd a)"

definition rank :: "(string \<times> f64) list \<Rightarrow> (string \<times> f64) list" where
  "rank scored = sort_js by_score scored"

fun resolve :: "(string \<times> jsobj) list \<Rightarrow> (string \<times> f64) list \<Rightarrow> hit list" where
  "resolve nodes [] = []"
| "resolve nodes ((i, score) # rest) =
     (case map_of nodes i of
        None \<Rightarrow> resolve nodes rest
      | Some n \<Rightarrow> \<lparr>entity = n, similarity = score\<rparr> # resolve nodes rest)"

definition searchGraph ::
  "'w embedder \<Rightarrow> string \<Rightarrow> nat \<Rightarrow> 'w app \<Rightarrow> (string + hit list) \<times> 'w app" where
  "searchGraph embedF query topK s =
     (if embeddings s = [] then (Inr [], s)
      else
        (case getEmbedding embedF query s of
           (Inl msg, s1) \<Rightarrow> (Inl msg, s1)
         | (Inr qEmb, s1) \<Rightarrow>
             (Inr (resolve (nodesMap s1) (take topK (rank (score_all qEmb (embeddings s1))))),
              s1)))"

text \<open>The prompt of \<^verbatim>\<open>submitRagQuery\<close>.\<close>

definition newline :: string where
  "newline = [CHR 0x0A]"

definition en_dash :: string where
  "en_dash = [CHR 0xE2, CHR 0x80, CHR 0x93]"

fun join_lines :: "string list \<Rightarrow> string" where
  "join_lines [] = []"
| "join_lines [x] = x"
| "join_lines (x # y # ys) = x @ newline @ join_lines (y # ys)"

definition context_line :: "hit \<Rightarrow> string" where
  "context_line c =
     (let n = entity c
      in ''['' @ tpl (gett n ''id'') @ ''] type='' @ tpl (gett n ''type'')
         @ '', title='' @ tpl (gett n ''title'')
         @ '', time=''
         @ or_str (gett n ''start_time'') (or_str (gett n ''published'') (or_str (gett n ''start_date'') []))
         @ '', region='' @ or_str (gett n ''region'') (or_str (gett n ''jurisdiction'') [])
         @ '', summary='' @ tpl (gett n ''summary''))"

definition rag_prompt :: "string \<Rightarrow> hit list \<Rightarrow> string" where
  "rag_prompt question contexts =
     ''User question:'' @ newline @ question @ newline @ newline
     @ ''Relevant graph context (nodes and events):'' @ newline
     @ join_lines (map context_line contexts) @ newline @ newline
     @ ''Using only this context and your own energy-domain knowledge, do the following: ''
     @ ''1. Give a concise answer (3'' @ en_dash @ ''6 sentences). ''
     @ ''2. Describe which nodes are high-risk and why, focusing on outages, cascading risks, and policy gaps. ''
     @ ''3. Describe the rough timeline of key events in simple language. ''
     @ ''Keep the answer in plain text paragraphs, no bullet points, no markdown.''"

text \<open>
  \<^verbatim>\<open>!ragQuery.trim()\<close>: the question is empty or made of the characters that \<^verbatim>\<open>trim\<close>
  strips, the white space and the line terminators of ECMAScript: U+0009 to U+000D, U+0020,
  U+00A0, U+1680, U+2000 to U+200A, U+2028, U+2029, U+202F, U+205F, U+3000 and U+FEFF.  In
  UTF-8 these are one byte (\<^verbatim>\<open>09\<close> to \<^verbatim>\<open>0D\<close>, \<^verbatim>\<open>20\<close>), two bytes (\<^verbatim>\<open>C2 A0\<close>) or three
  bytes (\<^verbatim>\<open>E1 9A 80\<close>; \<^verbatim>\<open>E2 80 80\<close> to \<^verbatim>\<open>E2 80 8A\<close>, \<^verbatim>\<open>E2 80 A8\<close>, \<^verbatim>\<open>E2 80 A9\<close>,
  \<^verbatim>\<open>E2 80 AF\<close>; \<^verbatim>\<open>E2 81 9F\<close>; \<^verbatim>\<open>E3 80 80\<close>; \<^verbatim>\<open>EF BB BF\<close>).
\<close>

definition space1 :: "nat \<Rightarrow> bool" where
  "space1 a \<longleftrightarrow> a = 0x20 \<or> (0x09 \<le> a \<and> a \<le> 0x0D)"

definition space2 :: "nat \<Rightarrow> nat \<Rightarrow> bool" where
  "space2 a b \<longleftrightarrow> a = 0xC2 \<and> b = 0xA0"

definition space3 :: "nat \<Rightarrow> nat \<Rightarrow> nat \<Rightarrow> bool" where
  "space3 a b c \<longleftrightarrow>
     (a = 0xE1 \<and> b = 0x9A \<and> c = 0x80)
   \<or> (a = 0xE2 \<and> b = 0x80 \<and> ((0x80 \<le> c \<and> c \<le> 0x8A) \<or> c = 0xA8 \<or> c = 0xA9 \<or> c = 0xAF))
   \<or> (a = 0xE2 \<and> b = 0x81 \<and> c = 0x9F)
   \<or> (a = 0xE3 \<and> b = 0x80 \<and> c = 0x80)
   \<or> (a = 0xEF \<and> b = 0xBB \<and> c = 0xBF)"

fun all_space :: "nat list \<Rightarrow> bool" where
  "all_space [] = True"
| "all_space [a] = space1 a"
| "all_space [a, b] = (if space1 a then all_space [b] else space2 a b)"
| "all_space (a # b # c # r) =
     (if space1 a then all_space (b # c # r)
      else if space2 a b then all_space (c # r)
      else space3 a b c \<and> all_space r)"

definition blank :: "string \<Rightarrow> bool" where
  "blank q = all_space (map of_char q)"

definition rag_failed_msg :: string where
  "rag_failed_msg = ''Failed to run RAG over the graph.''"

definition submitRagQuery :: "string js \<Rightarrow> 'w embedder \<Rightarrow> 'w generator \<Rightarrow> 'w app \<Rightarrow> 'w app" where
  "submitRagQuery OPENAI_API_KEY embedF generateF s =
     (if \<not> truthy OPENAI_API_KEY then s\<lparr>error := missing_key_msg\<rparr>
      else if blank (ragQuery s) then s
      else
        (case searchGraph embedF (ragQuery s) 8
                (s\<lparr>loadingRag := True, ragAnswer := [], ragContexts := []\<rparr>) of
           (Inl msg, s1) \<Rightarrow> s1\<lparr>ragAnswer := rag_failed_msg, loadingRag := False\<rparr>
         | (Inr contexts, s1) \<Rightarrow>
             (case gptPlainText generateF (rag_prompt (ragQuery s) contexts) s1 of
                (Inl msg, s2) \<Rightarrow> s2\<lparr>ragAnswer := rag_failed_msg, loadingRag := False\<rparr>
              | (Inr answer, s2) \<Rightarrow>
                  s2\<lparr>ragAnswer := answer, ragContexts := contexts, loadingRag := False\<rparr>)))"

section \<open>Graph reading of the ingestion steps\<close>

text \<open>
  Definitions used in the proofs only: the three loops as one loop over a text function and
  a store step, what a completed run does to \<^verbatim>\<open>nodesMap\<close> and \<^verbatim>\<open>edges\<close>, and the
  fields that the ingestion leaves alone.
\<close>

fun ingest_loop ::
  "(jsobj \<Rightarrow> string) \<Rightarrow> (jsobj \<Rightarrow> f64 list \<Rightarrow> 'w app \<Rightarrow> 'w app) \<Rightarrow> 'w embedder \<Rightarrow> jsobj list
     \<Rightarrow> 'w app \<Rightarrow> outcome \<times> 'w app" where
  "ingest_loop text_of store embedF [] s = (Done, s)"
| "ingest_loop text_of store embedF (x # xs) s =
     (case getEmbedding embedF (text_of x) s of
        (Inl msg, s1) \<Rightarrow> (Thrown msg, s1)
      | (Inr emb, s1) \<Rightarrow> ingest_loop text_of store embedF xs (store x emb s1))"

definition event_upserts :: "jsobj \<Rightarrow> (string \<times> jsobj) list \<Rightarrow> (string \<times> jsobj) list" where
  "event_upserts e nodes =
     (let n1 = upsert_node (event_id e) (event_attrs e) nodes
      in if truthy (gett e ''region'')
         then upsert_node (''location:'' @ tpl (gett e ''region'')) (location_attrs (gett e ''region'')) n1
         else n1)"

definition event_links :: "jsobj \<Rightarrow> edge list" where
  "event_links e =
     (if truthy (gett e ''region'')
      then [\<lparr>source = event_id e, target = ''location:'' @ tpl (gett e ''region''), relation = ''OCCURS_IN''\<rparr>]
      else [])"

definition policy_upserts :: "jsobj \<Rightarrow> (string \<times> jsobj) list \<Rightarrow> (string \<times> jsobj) list" where
  "policy_upserts p nodes =
     (let n1 = upsert_node (policy_id p) (policy_attrs p) nodes
      in if truthy (gett p ''jurisdiction'')
         then upsert_node (''location:'' @ tpl (gett p ''jurisdiction''))
                (location_attrs (gett p ''jurisdiction'')) n1
         else n1)"

definition policy_links :: "jsobj \<Rightarrow> edge list" where
  "policy_links p =
     (if truthy (gett p ''jurisdiction'')
      then [\<lparr>source = policy_id p, target = ''location:'' @ tpl (gett p ''jurisdiction''),
             relation = ''APPLIES_TO''\<rparr>]
      else [])"

definition mention_links :: "jsobj list \<Rightarrow> jsobj list \<Rightarrow> edge list" where
  "mention_links ps es =
     concat (map (\<lambda>p. map (\<lambda>e. \<lparr>source = paper_id p, target = event_id e, relation = ''MENTIONS_EVENT''\<rparr>)
                         (filter (mentions p) es)) ps)"

definition run_nodes :: "jsobj list \<Rightarrow> jsobj list \<Rightarrow> jsobj list \<Rightarrow> (string \<times> jsobj) list \<Rightarrow> (string \<times> jsobj) list" where
  "run_nodes ps es ls nodes =
     fold policy_upserts ls (fold event_upserts es (fold (\<lambda>p. upsert_node (paper_id p) (paper_attrs p)) ps nodes))"

definition run_links :: "jsobj list \<Rightarrow> jsobj list \<Rightarrow> jsobj list \<Rightarrow> edge list" where
  "run_links ps es ls = concat (map event_links es) @ concat (map policy_links ls) @ mention_links ps es"

definition untouched :: "'w app \<Rightarrow> 'w app \<Rightarrow> bool" where
  "untouched s u \<longleftrightarrow>
     error u = error s \<and> loadingIngest u = loadingIngest s
     \<and> selectedNodeId u = selectedNodeId s \<and> selectedNodeSummary u = selectedNodeSummary s
     \<and> ragAnswer u = ragAnswer s \<and> ragContexts u = ragContexts s
     \<and> ragQuery u = ragQuery s \<and> loadingSummary u = loadingSummary s \<and> loadingRag u = loadingRag s"

text \<open>
  Invariants of the store: the keys are distinct and every relationship joins two
  entities; every record holds its identifier and every embedding belongs to an entity.
  A provider is \<open>text_only\<close> when its answer is a function of the request text.
\<close>

definition closed :: "'w app \<Rightarrow> bool" where
  "closed s \<longleftrightarrow>
     distinct (map fst (nodesMap s))
     \<and> set (map source (edges s)) \<union> set (map target (edges s)) \<subseteq> set (map fst (nodesMap s))"

definition ids_ok :: "'w app \<Rightarrow> bool" where
  "ids_ok s \<longleftrightarrow>
     list_all (\<lambda>(k, n). strs n ''id'' = Some (Val k)) (nodesMap s)
     \<and> set (map fst (embeddings s)) \<subseteq> set (map fst (nodesMap s))"

definition same_graph :: "'w app \<Rightarrow> 'w app \<Rightarrow> bool" where
  "same_graph s t \<longleftrightarrow>
     nodesMap s = nodesMap t \<and> edges s = edges t \<and> embeddings s = embeddings t"

definition text_only :: "'w embedder \<Rightarrow> bool" where
  "text_only embedF \<longleftrightarrow> (\<forall>text w w'. fst (embedF text w) = fst (embedF text w'))"




section \<open>Scenarios\<close>

text \<open>
  The initial state of the component, and the records, providers and runs that the
  examples below evaluate.  The world of the example providers counts their calls.
\<close>

definition initial_app :: "'w \<Rightarrow> 'w app" where
  "initial_app w =
     \<lparr>nodesMap = [], edges = [], embeddings = [], error = [], loadingIngest = False,
      selectedNodeId = None, selectedNodeSummary = [], loadingSummary = False,
      ragQuery = ''Why are some regions high-risk for cascading outages when renewables increase?'',
      ragAnswer = [], ragContexts = [], loadingRag = False, world = w, calls = []\<rparr>"

definition storm_event :: jsobj where
  "storm_event =
     \<lparr>strs = [''external_id'' \<mapsto> Val ''e1'', ''name'' \<mapsto> Val ''storm'',
             ''description'' \<mapsto> Val ''outage'', ''region'' \<mapsto> Val ''X''],
      nums = [''severity'' \<mapsto> Val 0.9]\<rparr>"

definition embed_unit :: "nat embedder" where
  "embed_unit text w = (Inr [Finite 1, Finite 0], Suc w)"

definition api_key :: "string js" where
  "api_key = Val ''sk-test''"

definition storm_app :: "nat app" where
  "storm_app = ingestAll api_key embed_unit (Some []) (Some [storm_event]) (Some []) (initial_app 0)"

definition generate_ok :: "nat generator" where
  "generate_ok prompt w = (Inr ''ok'', Suc w)"

definition twin_app :: "nat app" where
  "twin_app =
     ingestAll api_key embed_unit (Some []) (Some [storm_event, storm_event]) (Some []) (initial_app 0)"

definition lone_nodes :: "(string \<times> jsobj) list" where
  "lone_nodes = [(''event:e1'', empty_obj)]"

definition lone_edges :: "edge list" where
  "lone_edges = [\<lparr>source = ''event:e1'', target = ''location:X'', relation = ''OCCURS_IN''\<rparr>]"

definition blackout_paper :: jsobj where
  "blackout_paper =
     \<lparr>strs = [''id'' \<mapsto> Val ''p1'', ''title'' \<mapsto> Val ''Blackout study'', ''summary'' \<mapsto> Val ''s''],
      nums = Map.empty\<rparr>"

definition flood_event :: jsobj where
  "flood_event =
     \<lparr>strs = [''external_id'' \<mapsto> Val ''e2'', ''name'' \<mapsto> Val ''flood'',
             ''description'' \<mapsto> Val ''dam'', ''region'' \<mapsto> Val ''Y''],
      nums = Map.empty\<rparr>"

definition embed_quota :: "nat \<Rightarrow> nat embedder" where
  "embed_quota n text w =
     (if w < n then Inr [Finite 1, Finite 0] else Inl ''Embedding error: quota'', Suc w)"

definition embed_alt :: "nat embedder" where
  "embed_alt text w =
     (Inr (if even w then [Finite 1, Finite 0] else [Finite 0, Finite 1]), Suc w)"


definition first_app :: "nat app" where
  "first_app =
     ingestAll api_key embed_unit (Some [blackout_paper]) (Some [storm_event]) (Some []) (initial_app 0)"

definition reset_again_app :: "nat app" where
  "reset_again_app =
     ingestAll api_key embed_unit (Some [blackout_paper]) (Some [storm_event]) (Some [])
       (resetGraph first_app)"

definition again_app :: "nat app" where
  "again_app =
     ingestAll api_key embed_unit (Some [blackout_paper]) (Some [storm_event]) (Some []) first_app"

definition flaky_app :: "nat app" where
  "flaky_app =
     ingestAll api_key (embed_quota 2) (Some [blackout_paper]) (Some [storm_event]) (Some [])
       (initial_app 0)"

definition flaky_again_app :: "nat app" where
  "flaky_again_app =
     ingestAll api_key (embed_quota 2) (Some [blackout_paper]) (Some [storm_event]) (Some [])
       (resetGraph flaky_app)"

definition self_edges :: "edge list" where
  "self_edges = [\<lparr>source = ''event:e1'', target = ''event:e1'', relation = ''SELF''\<rparr>]"

definition quota_start :: "nat app" where
  "quota_start = resetGraph ((initial_app 0)\<lparr>error := [], loadingIngest := True\<rparr>)"

definition quota_before :: "nat app" where
  "quota_before = snd (ingest_events (embed_quota 1) [storm_event] quota_start)"

definition quota_failed :: "nat app" where
  "quota_failed = snd (getEmbedding (embed_quota 1) (event_text flood_event) quota_before)"

definition quota_app :: "nat app" where
  "quota_app =
     ingestAll api_key (embed_quota 1) (Some []) (Some [storm_event, flood_event]) (Some [])
       (initial_app 0)"

definition rename_attrs :: jsobj where
  "rename_attrs = \<lparr>strs = [''title'' \<mapsto> Val ''renamed''], nums = Map.empty\<rparr>"

definition rerun_app :: "nat app" where
  "rerun_app =
     ingestAll api_key embed_unit (Some [blackout_paper]) (Some [storm_event]) (Some []) storm_app"

definition rerun_twice :: "nat app" where
  "rerun_twice =
     ingestAll api_key embed_unit (Some [blackout_paper]) (Some [storm_event]) (Some []) rerun_app"







definition nbsp_app :: "nat app" where
  "nbsp_app = (initial_app 0)\<lparr>ragQuery := [CHR 0xC2, CHR 0xA0]\<rparr>"

section \<open>Evaluation of the scenarios\<close>

lemmas ev = ingestAll_def ingest_try_def ingest_records_def resetGraph_def
  initial_app_def api_key_def embed_unit_def embed_alt_def embed_quota_def getEmbedding_def
  store_paper_def store_event_def store_policy_def addNode_def addEdge_def
  upsert_node_def merge_node_def event_id_def event_attrs_def event_text_def location_attrs_def
  paper_id_def paper_attrs_def paper_text_def
  storm_event_def flood_event_def blackout_paper_def gett_def getn_def or_str_def empty_obj_def Let_def
  mentions_def toLowerCase_def lower_char_def

lemmas ev2 = ev storm_app_def twin_app_def generate_ok_def lone_nodes_def lone_edges_def

lemmas evm = metrics_def degrees_def deg_init_def deg_edge_def bump_def baseRisk_def

section \<open>Requests\<close>

lemma getEmbedding_store:
  "getEmbedding embedF text s = (r, s1) \<Longrightarrow>
     nodesMap s1 = nodesMap s \<and> edges s1 = edges s \<and> embeddings s1 = embeddings s
     \<and> calls s1 = calls s @ [EmbedCall text] \<and> r = fst (embedF text (world s))
     \<and> world s1 = snd (embedF text (world s))"
  by (auto simp: getEmbedding_def Let_def split: prod.splits)

section \<open>Degrees\<close>

lemma fold_init: "fold (\<lambda>i d. d(i \<mapsto> 0::nat)) ids d0 = (\<lambda>i. if i \<in> set ids then Some 0 else d0 i)"
  by (induction ids arbitrary: d0) (auto simp: fun_eq_iff)

lemma deg_init_apply: "deg_init ids i = (if i \<in> set ids then Some 0 else None)"
  by (simp add: deg_init_def fold_init)

lemma bump_apply: "bump k d i = (if i = k then map_option Suc (d i) else d i)"
  by (auto simp: bump_def split: option.splits)

lemma deg_edge_apply:
  "deg_edge e d i =
     map_option (\<lambda>n. n + (if source e = i then 1 else 0) + (if target e = i then 1 else 0)) (d i)"
  by (cases "d i") (auto simp: deg_edge_def bump_apply)

lemma fold_deg_edge:
  "fold deg_edge es d i =
     map_option (\<lambda>n. n + length (filter (\<lambda>e. source e = i) es) + length (filter (\<lambda>e. target e = i) es)) (d i)"
proof (induction es arbitrary: d)
  case Nil
  show ?case by (cases "d i") auto
next
  case (Cons e es)
  have "fold deg_edge (e # es) d i =
          map_option (\<lambda>n. n + length (filter (\<lambda>e. source e = i) es) + length (filter (\<lambda>e. target e = i) es))
            (deg_edge e d i)"
    using Cons[of "deg_edge e d"] by simp
  also have "deg_edge e d i =
     map_option (\<lambda>n. n + (if source e = i then 1 else 0) + (if target e = i then 1 else 0)) (d i)"
    by (rule deg_edge_apply)
  finally show ?case by (cases "d i") auto
qed

lemma degrees_apply:
  "degrees nodes es i =
     (if i \<in> fst ` set nodes
      then Some (length (filter (\<lambda>e. source e = i) es) + length (filter (\<lambda>e. target e = i) es))
      else None)"
  by (simp add: degrees_def fold_deg_edge deg_init_apply)

lemma metrics_keys: "map fst (metrics nodes es) = map fst nodes"
  by (simp add: metrics_def Let_def case_prod_beta comp_def)

lemma metrics_entry:
  "(i, m) \<in> set (metrics nodes es) \<Longrightarrow>
     degree_centrality m = real (the (degrees nodes es i)) / max (real (length nodes) - 1) 1"
  by (auto simp: metrics_def Let_def)

text \<open>
  Claim C7.  For every identifier in the store, the count \<^verbatim>\<open>deg[id]\<close> is the number of
  relationships with that identifier as source plus the number with it as target, so a
  self-loop counts twice; its degree centrality is that count divided by
  \<^verbatim>\<open>max(N - 1, 1)\<close>, \<open>N\<close> the number of entities; the divisor is positive, so nothing
  is divided by zero when \<open>N \<le> 1\<close>.
\<close>

theorem degree_centrality_formula:
  assumes "i \<in> set (map fst nodes)"
  shows "degrees nodes es i =
           Some (length (filter (\<lambda>e. source e = i) es) + length (filter (\<lambda>e. target e = i) es))
         \<and> (\<exists>m. (i, m) \<in> set (metrics nodes es))
         \<and> (\<forall>m. (i, m) \<in> set (metrics nodes es) \<longrightarrow>
               degree_centrality m =
                 real (length (filter (\<lambda>e. source e = i) es) + length (filter (\<lambda>e. target e = i) es))
                   / max (real (length nodes) - 1) 1)
         \<and> 0 < max (real (length nodes) - 1) 1"
proof -
  from assms have "i \<in> fst ` set nodes" by simp
  then have d: "degrees nodes es i =
           Some (length (filter (\<lambda>e. source e = i) es) + length (filter (\<lambda>e. target e = i) es))"
    by (simp add: degrees_apply)
  from assms have "i \<in> set (map fst (metrics nodes es))" by (simp only: metrics_keys)
  then have ex: "\<exists>m. (i, m) \<in> set (metrics nodes es)" by auto
  have c: "degree_centrality m =
                 real (length (filter (\<lambda>e. source e = i) es) + length (filter (\<lambda>e. target e = i) es))
                   / max (real (length nodes) - 1) 1"
    if "(i, m) \<in> set (metrics nodes es)" for m
    using metrics_entry[OF that] d by simp
  have p: "0 < max (real (length nodes) - 1) 1" by simp
  from d ex c p show ?thesis by blast
qed

theorem degree_centrality_formula_witness:
  "''event:e1'' \<in> set (map fst lone_nodes)
   \<and> degrees lone_nodes self_edges ''event:e1'' = Some 2
   \<and> metrics lone_nodes self_edges = [(''event:e1'', \<lparr>degree_centrality = 2, risk_score = 23/20\<rparr>)]
   \<and> length lone_nodes = 1"
proof -
  have h: "''event:e1'' \<in> set (map fst lone_nodes)" by (simp add: lone_nodes_def)
  have m: "metrics lone_nodes self_edges = [(''event:e1'', \<lparr>degree_centrality = 2, risk_score = 23/20\<rparr>)]"
    by (simp add: ev2 evm self_edges_def)
  from degree_centrality_formula[OF h, of self_edges] h m show ?thesis
    by (simp add: self_edges_def lone_nodes_def)
qed

lemma sum_bump:
  "distinct ids \<Longrightarrow> set ids \<subseteq> dom d \<Longrightarrow>
   (\<Sum>i\<leftarrow>ids. the (bump k d i)) = (\<Sum>i\<leftarrow>ids. the (d i)) + (if k \<in> set ids then 1 else 0)"
proof (induction ids)
  case Nil
  then show ?case by simp
next
  case (Cons a ids)
  then show ?case by (auto simp: bump_apply)
qed

lemma dom_bump: "dom (bump k d) = dom d"
  by (auto simp: bump_apply dom_def split: if_splits)

lemma handshake_fold:
  "distinct ids \<Longrightarrow> set ids \<subseteq> dom d \<Longrightarrow>
   \<forall>e\<in>set es. source e \<in> set ids \<and> target e \<in> set ids \<Longrightarrow>
   (\<Sum>i\<leftarrow>ids. the (fold deg_edge es d i)) = (\<Sum>i\<leftarrow>ids. the (d i)) + 2 * length es"
proof (induction es arbitrary: d)
  case Nil
  then show ?case by simp
next
  case (Cons e es)
  have dom: "set ids \<subseteq> dom (deg_edge e d)"
    using Cons.prems(2) by (simp add: deg_edge_def dom_bump)
  have step: "(\<Sum>i\<leftarrow>ids. the (deg_edge e d i)) = (\<Sum>i\<leftarrow>ids. the (d i)) + 2"
    using Cons.prems by (simp add: deg_edge_def sum_bump dom_bump)
  show ?case
    using Cons.IH[OF Cons.prems(1) dom] Cons.prems(3) step by simp
qed

lemma degrees_sum:
  assumes "distinct (map fst nodes)"
    and "set (map source es) \<union> set (map target es) \<subseteq> set (map fst nodes)"
  shows "(\<Sum>i\<leftarrow>map fst nodes. the (degrees nodes es i)) = 2 * length es"
proof -
  have "set (map fst nodes) \<subseteq> dom (deg_init (map fst nodes))"
    by (auto simp: deg_init_apply dom_def)
  moreover have "(\<Sum>i\<leftarrow>map fst nodes. the (deg_init (map fst nodes) i)) = 0"
    by (simp add: deg_init_apply)
  moreover have "\<forall>e\<in>set es. source e \<in> set (map fst nodes) \<and> target e \<in> set (map fst nodes)"
    using assms(2) by auto
  ultimately show ?thesis
    using handshake_fold[of "map fst nodes" "deg_init (map fst nodes)" es] assms(1)
    by (simp add: degrees_def)
qed




section \<open>Risk score\<close>

lemma zip_map_same: "zip xs (map f xs) = map (\<lambda>x. (x, f x)) xs"
  by (induction xs) simp_all

lemma metrics_zip:
  "((i, node), (j, m)) \<in> set (zip nodes (metrics nodes es)) \<Longrightarrow>
     j = i \<and> degree_centrality m = real (the (degrees nodes es i)) / max (real (length nodes) - 1) 1
     \<and> risk_score m = 0.5 * baseRisk node + 0.5 * degree_centrality m"
  unfolding metrics_def Let_def zip_map_same by auto

text \<open>
  Claim C2, amended.  For every graph and every entity in it, the risk score is
  \<open>0.5 * baseRisk + 0.5 * degree centrality\<close> of that entity, and it lies in \<open>[0, 1]\<close>
  whenever the base risk and the degree centrality do.  (Neither is clamped: the degree
  centrality exceeds 1 as soon as relationships repeat or loop, and the severity is stored
  as given.)
\<close>

theorem risk_score_blend:
  assumes "((i, node), (j, m)) \<in> set (zip nodes (metrics nodes es))"
  shows "map fst (metrics nodes es) = map fst nodes
       \<and> j = i
       \<and> degree_centrality m = real (the (degrees nodes es i)) / max (real (length nodes) - 1) 1
       \<and> risk_score m = 0.5 * baseRisk node + 0.5 * degree_centrality m
       \<and> (0 \<le> baseRisk node \<and> baseRisk node \<le> 1
           \<and> 0 \<le> degree_centrality m \<and> degree_centrality m \<le> 1
          \<longrightarrow> 0 \<le> risk_score m \<and> risk_score m \<le> 1)"
proof -
  note z = metrics_zip[OF assms]
  have r: "risk_score m = 0.5 * baseRisk node + 0.5 * degree_centrality m"
    using z by blast
  have "0 \<le> risk_score m \<and> risk_score m \<le> 1"
    if "0 \<le> baseRisk node \<and> baseRisk node \<le> 1 \<and> 0 \<le> degree_centrality m \<and> degree_centrality m \<le> 1"
    using that unfolding r by linarith
  with z metrics_keys[of nodes es] show ?thesis by blast
qed

theorem risk_score_blend_witness:
  "(hd (nodesMap storm_app), hd (metrics (nodesMap storm_app) (edges storm_app)))
     \<in> set (zip (nodesMap storm_app) (metrics (nodesMap storm_app) (edges storm_app)))
   \<and> fst (hd (nodesMap storm_app)) = ''event:e1''
   \<and> baseRisk (snd (hd (nodesMap storm_app))) = 9/10
   \<and> degree_centrality (snd (hd (metrics (nodesMap storm_app) (edges storm_app)))) = 1
   \<and> risk_score (snd (hd (metrics (nodesMap storm_app) (edges storm_app)))) = 19/20"
proof -
  let ?N = "nodesMap storm_app" and ?M = "metrics (nodesMap storm_app) (edges storm_app)"
  have h0: "(hd ?N, hd ?M) \<in> set (zip ?N ?M)"
    by (simp add: ev2 evm)
  then have h: "((fst (hd ?N), snd (hd ?N)), (fst (hd ?M), snd (hd ?M))) \<in> set (zip ?N ?M)"
    by simp
  have b: "baseRisk (snd (hd ?N)) = 9/10" by (simp add: ev2 evm)
  have d: "degree_centrality (snd (hd ?M)) = 1" by (simp add: ev2 evm)
  have i: "fst (hd ?N) = ''event:e1''" by (simp add: ev2)
  from risk_score_blend[OF h] h0 b d i show ?thesis by simp
qed

text \<open>
  The bound as stated fails on a graph that \<^verbatim>\<open>ingestAll\<close> builds: the same event record
  (severity 0.9, a region) twice gives two entities and two \<^verbatim>\<open>OCCURS_IN\<close> relationships
  between them, degree centrality 2 and risk scores 1.45 and 1.15.
\<close>

theorem risk_above_one:
  "map (\<lambda>(i, m). (i, degree_centrality m, risk_score m)) (metrics (nodesMap twin_app) (edges twin_app))
     = [(''event:e1'', 2, 29/20), (''location:X'', 2, 23/20)]
   \<and> \<not> ((29/20 :: real) \<le> 1)"
  by (simp add: ev2 evm)

section \<open>Vector math\<close>

lemma fold_sq: "fold (\<lambda>x s. s + x * x) a (c::real) = c + (\<Sum>x\<leftarrow>a. x * x)"
  by (induction a arbitrary: c) simp_all


lemma sum_sq_nonneg: "0 \<le> (\<Sum>x\<leftarrow>a. x * x :: real)"
  by (induction a) simp_all


lemma norm_v_nonneg: "0 \<le> norm_v a"
  by (simp add: norm_v_def fold_sq sum_sq_nonneg)















section \<open>Doubles\<close>

































section \<open>Retrieval\<close>




















text \<open>
  Claim C1, amended.  In every state whose embedding index is empty, \<^verbatim>\<open>searchGraph\<close>
  returns the empty context list without calling the embedding provider, and
  \<^verbatim>\<open>submitRagQuery\<close> makes no embedding request; but with a key and a question that is not
  blank it still makes exactly one text-generation request, for the prompt with an empty
  context block, and leaves the empty context list in the state.  With no key or a blank
  question it makes no request and leaves the contexts as they were.
\<close>

theorem rag_on_empty_index:
  assumes "embeddings s = []"
  shows "searchGraph embedF (ragQuery s) 8 s = (Inr [], s)
       \<and> calls (submitRagQuery key embedF generateF s) =
           calls s @ (if truthy key \<and> \<not> blank (ragQuery s)
                      then [GenerateCall (rag_prompt (ragQuery s) [])] else [])
       \<and> ragContexts (submitRagQuery key embedF generateF s) =
           (if truthy key \<and> \<not> blank (ragQuery s) then [] else ragContexts s)"
  using assms
  by (auto simp: submitRagQuery_def searchGraph_def gptPlainText_def Let_def split: prod.splits sum.splits)

theorem rag_on_empty_index_witness:
  "embeddings (initial_app (0::nat)) = []
   \<and> embeddings nbsp_app = []
   \<and> calls (submitRagQuery Undefined embed_unit generate_ok (initial_app 0)) = []
   \<and> calls (submitRagQuery api_key embed_unit generate_ok nbsp_app) = []
   \<and> calls (submitRagQuery api_key embed_unit generate_ok (initial_app 0))
       = [GenerateCall (rag_prompt (ragQuery (initial_app (0::nat))) [])]
   \<and> ragContexts (submitRagQuery api_key embed_unit generate_ok (initial_app 0)) = []"
proof -
  have h: "embeddings (initial_app (0::nat)) = []" by (simp add: initial_app_def)
  have g: "embeddings nbsp_app = []" by (simp add: nbsp_app_def initial_app_def)
  have b: "\<not> blank (ragQuery (initial_app (0::nat)))"
    by (simp add: initial_app_def blank_def space1_def space2_def space3_def)
  have n: "blank (ragQuery nbsp_app)"
    by (simp add: nbsp_app_def blank_def space1_def space2_def space3_def)
  have k: "truthy api_key" by (simp add: api_key_def)
  have c0: "calls (initial_app (0::nat)) = []" "calls nbsp_app = []"
    by (simp_all add: nbsp_app_def initial_app_def)
  show ?thesis
    using rag_on_empty_index[OF h, of embed_unit Undefined generate_ok]
      rag_on_empty_index[OF h, of embed_unit api_key generate_ok]
      rag_on_empty_index[OF g, of embed_unit api_key generate_ok]
      h g b n k c0
    by simp
qed

text \<open>
  The claim as stated fails in the initial state of the component (empty graph, the
  default question): the text-generation provider is called once.
\<close>

theorem generate_called_on_empty_index:
  "embeddings (initial_app (0::nat)) = []
   \<and> calls (submitRagQuery api_key embed_unit generate_ok (initial_app 0)) =
       [GenerateCall (rag_prompt (ragQuery (initial_app (0::nat))) [])]"
  by (simp add: submitRagQuery_def searchGraph_def gptPlainText_def initial_app_def api_key_def
        generate_ok_def blank_def space1_def space2_def space3_def)

section \<open>Upsert\<close>

lemma upsert_keys:
  "map fst (upsert_node i attrs prev) =
     (if i \<in> set (map fst prev) then map fst prev else map fst prev @ [i])"
  by (simp add: upsert_node_def Let_def update_keys)

lemma upsert_lookup:
  "map_of (upsert_node i attrs prev) =
     (map_of prev)(i \<mapsto> merge_node (case map_of prev i of None \<Rightarrow> empty_obj | Some n \<Rightarrow> n) i attrs)"
  by (simp add: upsert_node_def Let_def update_conv')

lemma merge_node_strs:
  "strs (merge_node old i attrs) f =
     (case strs attrs f of Some v \<Rightarrow> Some v
      | None \<Rightarrow> if f = ''id'' then Some (Val i) else strs old f)"
  by (simp add: merge_node_def map_add_def split: option.splits)

lemma merge_node_nums:
  "nums (merge_node old i attrs) f =
     (case nums attrs f of Some v \<Rightarrow> Some v | None \<Rightarrow> nums old f)"
  by (simp add: merge_node_def map_add_def split: option.splits)

lemma addNode_nodes: "nodesMap (addNode i attrs emb s) = upsert_node i attrs (nodesMap s)"
  by (cases emb) (simp_all add: addNode_def)

lemma addNode_edges: "edges (addNode i attrs emb s) = edges s"
  by (cases emb) (simp_all add: addNode_def)

text \<open>
  Claim C8.  \<^verbatim>\<open>addNode\<close> on any state, identifier and attribute object: the keys of
  \<^verbatim>\<open>nodesMap\<close> stay as they are when the identifier is among them and gain it at the end
  otherwise (so distinct keys stay distinct: no entity is duplicated); every other entity
  is untouched; the entity of the identifier has every field of the attribute object with
  the attribute's value (last write wins), and every field that the attribute object does
  not have keeps the value of the existing record (of the empty record when there was
  none).  The field \<^verbatim>\<open>id\<close> is written with the identifier on each call; for a record that
  already holds its identifier there (every record that \<^verbatim>\<open>addNode\<close> has written, lemma
  \<open>ingestAll_ids_ok\<close> below) this keeps its value too.
\<close>

theorem upsert_merges:
  "(let prev = nodesMap s;
        s' = addNode i attrs emb s;
        old = (case map_of prev i of None \<Rightarrow> empty_obj | Some n \<Rightarrow> n)
    in map fst (nodesMap s') = (if i \<in> set (map fst prev) then map fst prev else map fst prev @ [i])
     \<and> (distinct (map fst prev) \<longrightarrow> distinct (map fst (nodesMap s')))
     \<and> (\<forall>j. j \<noteq> i \<longrightarrow> map_of (nodesMap s') j = map_of prev j)
     \<and> (\<exists>n'. map_of (nodesMap s') i = Some n'
          \<and> (\<forall>f v. strs attrs f = Some v \<longrightarrow> strs n' f = Some v)
          \<and> (\<forall>f v. nums attrs f = Some v \<longrightarrow> nums n' f = Some v)
          \<and> (\<forall>f. strs attrs f = None \<and> (f \<noteq> ''id'' \<or> strs old ''id'' = Some (Val i))
                 \<longrightarrow> strs n' f = strs old f)
          \<and> (\<forall>f. nums attrs f = None \<longrightarrow> nums n' f = nums old f)
          \<and> (strs attrs ''id'' = None \<longrightarrow> strs n' ''id'' = Some (Val i))))"
proof -
  let ?prev = "nodesMap s"
  let ?old = "case map_of ?prev i of None \<Rightarrow> empty_obj | Some n \<Rightarrow> n"
  let ?n = "merge_node ?old i attrs"
  have k: "map fst (nodesMap (addNode i attrs emb s)) =
             (if i \<in> set (map fst ?prev) then map fst ?prev else map fst ?prev @ [i])"
    by (simp add: addNode_nodes upsert_keys)
  have d: "distinct (map fst (nodesMap (addNode i attrs emb s)))" if "distinct (map fst ?prev)"
    using that unfolding k by simp
  have o: "map_of (nodesMap (addNode i attrs emb s)) j = map_of ?prev j" if "j \<noteq> i" for j
    using that by (simp add: addNode_nodes upsert_lookup)
  have n: "map_of (nodesMap (addNode i attrs emb s)) i = Some ?n"
    by (simp add: addNode_nodes upsert_lookup)
  have f1: "\<forall>f v. strs attrs f = Some v \<longrightarrow> strs ?n f = Some v"
    by (simp add: merge_node_strs)
  have f2: "\<forall>f v. nums attrs f = Some v \<longrightarrow> nums ?n f = Some v"
    by (simp add: merge_node_nums)
  have f3: "\<forall>f. strs attrs f = None \<and> (f \<noteq> ''id'' \<or> strs ?old ''id'' = Some (Val i))
                 \<longrightarrow> strs ?n f = strs ?old f"
    by (auto simp: merge_node_strs)
  have f4: "\<forall>f. nums attrs f = None \<longrightarrow> nums ?n f = nums ?old f"
    by (simp add: merge_node_nums)
  have f5: "strs attrs ''id'' = None \<longrightarrow> strs ?n ''id'' = Some (Val i)"
    by (simp add: merge_node_strs)
  have ex: "\<exists>n'. map_of (nodesMap (addNode i attrs emb s)) i = Some n'
          \<and> (\<forall>f v. strs attrs f = Some v \<longrightarrow> strs n' f = Some v)
          \<and> (\<forall>f v. nums attrs f = Some v \<longrightarrow> nums n' f = Some v)
          \<and> (\<forall>f. strs attrs f = None \<and> (f \<noteq> ''id'' \<or> strs ?old ''id'' = Some (Val i))
                 \<longrightarrow> strs n' f = strs ?old f)
          \<and> (\<forall>f. nums attrs f = None \<longrightarrow> nums n' f = nums ?old f)
          \<and> (strs attrs ''id'' = None \<longrightarrow> strs n' ''id'' = Some (Val i))"
    by (rule exI[of _ ?n]) (intro conjI n f1 f2 f3 f4 f5)
  show ?thesis
    unfolding Let_def
  proof (intro conjI)
    show "map fst (nodesMap (addNode i attrs emb s)) =
             (if i \<in> set (map fst ?prev) then map fst ?prev else map fst ?prev @ [i])"
      by (rule k)
    show "distinct (map fst ?prev) \<longrightarrow> distinct (map fst (nodesMap (addNode i attrs emb s)))"
      using d by (rule impI)
    show "\<forall>j. j \<noteq> i \<longrightarrow> map_of (nodesMap (addNode i attrs emb s)) j = map_of ?prev j"
      using o by (intro allI impI)
  qed (rule ex)
qed

theorem upsert_merges_witness:
  "map fst (nodesMap (addNode ''event:e1'' rename_attrs None storm_app)) = [''event:e1'', ''location:X'']
   \<and> map_option (\<lambda>n. (strs n ''title'', strs n ''summary'', strs n ''id'', nums n ''severity''))
        (map_of (nodesMap storm_app) ''event:e1'')
       = Some (Some (Val ''storm''), Some (Val ''outage''), Some (Val ''event:e1''), Some (Val (9/10)))
   \<and> map_option (\<lambda>n. (strs n ''title'', strs n ''summary'', strs n ''id'', nums n ''severity''))
        (map_of (nodesMap (addNode ''event:e1'' rename_attrs None storm_app)) ''event:e1'')
       = Some (Some (Val ''renamed''), Some (Val ''outage''), Some (Val ''event:e1''), Some (Val (9/10)))"
proof -
  let ?s' = "addNode ''event:e1'' rename_attrs None storm_app"
  let ?old = "case map_of (nodesMap storm_app) ''event:e1'' of None \<Rightarrow> empty_obj | Some n \<Rightarrow> n"
  have k0: "map fst (nodesMap storm_app) = [''event:e1'', ''location:X'']"
    by (simp add: ev2)
  have o: "map_option (\<lambda>n. (strs n ''title'', strs n ''summary'', strs n ''id'', nums n ''severity''))
        (map_of (nodesMap storm_app) ''event:e1'')
       = Some (Some (Val ''storm''), Some (Val ''outage''), Some (Val ''event:e1''), Some (Val (9/10)))"
    by (simp add: ev2)
  then have old: "strs ?old ''summary'' = Some (Val ''outage'')" "strs ?old ''id'' = Some (Val ''event:e1'')"
    "nums ?old ''severity'' = Some (Val (9/10))"
    by (auto split: option.splits)
  note t = upsert_merges[of storm_app "''event:e1''" rename_attrs None, unfolded Let_def]
  from t have k: "map fst (nodesMap ?s') = [''event:e1'', ''location:X'']"
    by (simp add: k0)
  from t obtain n' where n: "map_of (nodesMap ?s') ''event:e1'' = Some n'"
    and w: "\<forall>f v. strs rename_attrs f = Some v \<longrightarrow> strs n' f = Some v"
    and kp: "\<forall>f. strs rename_attrs f = None \<and> (f \<noteq> ''id'' \<or> strs ?old ''id'' = Some (Val ''event:e1''))
                 \<longrightarrow> strs n' f = strs ?old f"
    and kn: "\<forall>f. nums rename_attrs f = None \<longrightarrow> nums n' f = nums ?old f"
    by blast
  have a: "strs n' ''title'' = Some (Val ''renamed'')"
    using w by (simp add: rename_attrs_def)
  have b: "strs n' ''summary'' = Some (Val ''outage'')"
    using kp old by (simp add: rename_attrs_def)
  have c: "strs n' ''id'' = Some (Val ''event:e1'')"
    using kp old by (simp add: rename_attrs_def)
  have d: "nums n' ''severity'' = Some (Val (9/10))"
    using kn old by (simp add: rename_attrs_def)
  show ?thesis
    using k o n a b c d by simp
qed

section \<open>Ingestion\<close>

lemma ingest_papers_loop: "ingest_papers embedF ps s = ingest_loop paper_text store_paper embedF ps s"
  by (induction ps arbitrary: s) (auto split: prod.splits sum.splits)

lemma ingest_events_loop: "ingest_events embedF es s = ingest_loop event_text store_event embedF es s"
  by (induction es arbitrary: s) (auto split: prod.splits sum.splits)

lemma ingest_policies_loop: "ingest_policies embedF ps s = ingest_loop policy_text store_policy embedF ps s"
  by (induction ps arbitrary: s) (auto split: prod.splits sum.splits)

lemma loop_append:
  "ingest_loop text_of store embedF (xs @ ys) s =
     (case ingest_loop text_of store embedF xs s of
        (Done, s1) \<Rightarrow> ingest_loop text_of store embedF ys s1
      | (Thrown msg, s1) \<Rightarrow> (Thrown msg, s1))"
  by (induction xs arbitrary: s) (auto split: prod.splits sum.splits)

lemma loop_fails_at:
  assumes "ingest_loop text_of store embedF pre s = (Done, s1)"
    and "getEmbedding embedF (text_of x) s1 = (Inl msg, s2)"
  shows "ingest_loop text_of store embedF (pre @ x # post) s = (Thrown msg, s2)"
  using assms by (simp add: loop_append)


lemma store_paper_graph:
  "nodesMap (store_paper p emb s) = upsert_node (paper_id p) (paper_attrs p) (nodesMap s)"
  "edges (store_paper p emb s) = edges s @ []"
  by (simp_all add: store_paper_def addNode_def)

lemma store_event_graph:
  "nodesMap (store_event e emb s) = event_upserts e (nodesMap s)"
  "edges (store_event e emb s) = edges s @ event_links e"
  by (simp_all add: store_event_def event_upserts_def event_links_def addNode_def addEdge_def Let_def)

lemma store_policy_graph:
  "nodesMap (store_policy p emb s) = policy_upserts p (nodesMap s)"
  "edges (store_policy p emb s) = edges s @ policy_links p"
  by (simp_all add: store_policy_def policy_upserts_def policy_links_def addNode_def addEdge_def Let_def)

lemma loop_done_graph:
  assumes n: "\<And>x emb s. nodesMap (store x emb s) = nf x (nodesMap s)"
    and e: "\<And>x emb s. edges (store x emb s) = edges s @ ef x"
  shows "ingest_loop text_of store embedF xs s = (Done, s') \<Longrightarrow>
           nodesMap s' = fold nf xs (nodesMap s) \<and> edges s' = edges s @ concat (map ef xs)"
proof (induction xs arbitrary: s)
  case Nil
  then show ?case by simp
next
  case (Cons x xs)
  obtain r s1 where ge: "getEmbedding embedF (text_of x) s = (r, s1)"
    by (cases "getEmbedding embedF (text_of x) s")
  from Cons.prems ge obtain emb where r: "r = Inr emb"
    by (cases r) auto
  from Cons.prems ge r have run: "ingest_loop text_of store embedF xs (store x emb s1) = (Done, s')"
    by simp
  note st = getEmbedding_store[OF ge]
  from Cons.IH[OF run] st show ?case by (simp add: n e)
qed

lemma link_events_graph:
  "nodesMap (link_events p es s) = nodesMap s
   \<and> edges (link_events p es s) =
       edges s @ map (\<lambda>e. \<lparr>source = paper_id p, target = event_id e, relation = ''MENTIONS_EVENT''\<rparr>)
                   (filter (mentions p) es)"
  by (induction es arbitrary: s) (simp_all add: addEdge_def)

lemma link_papers_graph:
  "nodesMap (link_papers ps es s) = nodesMap s
   \<and> edges (link_papers ps es s) = edges s @ mention_links ps es"
  by (induction ps arbitrary: s) (simp_all add: link_events_graph mention_links_def)

lemma ingest_records_done:
  assumes "ingest_records embedF ps es ls s = (Done, s')"
  shows "nodesMap s' = run_nodes ps es ls (nodesMap s) \<and> edges s' = edges s @ run_links ps es ls"
proof -
  from assms obtain s1 s2 s3 where
    p: "ingest_loop paper_text store_paper embedF ps s = (Done, s1)" and
    e: "ingest_loop event_text store_event embedF es s1 = (Done, s2)" and
    l: "ingest_loop policy_text store_policy embedF ls s2 = (Done, s3)" and
    f: "s' = link_papers ps es s3"
    by (auto simp: ingest_records_def ingest_papers_loop ingest_events_loop ingest_policies_loop
          split: prod.splits outcome.splits)
  note a = loop_done_graph[where store = store_paper, OF store_paper_graph p]
  note b = loop_done_graph[where store = store_event, OF store_event_graph e]
  note c = loop_done_graph[where store = store_policy, OF store_policy_graph l]
  show ?thesis
    using a b c by (simp add: f link_papers_graph run_nodes_def run_links_def)
qed

lemma loop_invariant:
  assumes st: "\<And>x emb u. P u \<Longrightarrow> P (store x emb u)"
    and wc: "\<And>u w c. P u \<Longrightarrow> P (u\<lparr>world := w, calls := c\<rparr>)"
  shows "P s \<Longrightarrow> P (snd (ingest_loop text_of store embedF xs s))"
proof (induction xs arbitrary: s)
  case Nil
  then show ?case by simp
next
  case (Cons x xs)
  obtain r w where e: "embedF (text_of x) (world s) = (r, w)"
    by (cases "embedF (text_of x) (world s)")
  let ?s1 = "s\<lparr>world := w, calls := calls s @ [EmbedCall (text_of x)]\<rparr>"
  have p1: "P ?s1" using Cons.prems by (rule wc)
  show ?case
  proof (cases r)
    case (Inl msg)
    with e p1 show ?thesis by (simp add: getEmbedding_def)
  next
    case (Inr emb)
    have "P (snd (ingest_loop text_of store embedF xs (store x emb ?s1)))"
      by (rule Cons.IH) (rule st[OF p1])
    with e Inr show ?thesis by (simp add: getEmbedding_def)
  qed
qed

lemma ingest_records_unfold:
  "ingest_records embedF ps es ls s =
     (let r1 = ingest_loop paper_text store_paper embedF ps s in
      if fst r1 \<noteq> Done then r1 else
      let r2 = ingest_loop event_text store_event embedF es (snd r1) in
      if fst r2 \<noteq> Done then r2 else
      let r3 = ingest_loop policy_text store_policy embedF ls (snd r2) in
      if fst r3 \<noteq> Done then r3 else (Done, link_papers ps es (snd r3)))"
  by (simp add: ingest_records_def ingest_papers_loop ingest_events_loop ingest_policies_loop Let_def
        split: prod.splits outcome.splits)

lemma untouched_refl: "untouched s s"
  by (simp add: untouched_def)

lemma untouched_addNode: "untouched s u \<Longrightarrow> untouched s (addNode i a emb u)"
  by (cases emb) (simp_all add: untouched_def addNode_def)

lemma untouched_addEdge: "untouched s u \<Longrightarrow> untouched s (addEdge a b c u)"
  by (simp add: untouched_def addEdge_def)

lemma untouched_store:
  "untouched s u \<Longrightarrow> untouched s (store_paper p emb u)"
  "untouched s u \<Longrightarrow> untouched s (store_event p emb u)"
  "untouched s u \<Longrightarrow> untouched s (store_policy p emb u)"
  by (simp_all add: store_paper_def store_event_def store_policy_def Let_def untouched_addNode untouched_addEdge)

lemma untouched_wc: "untouched s u \<Longrightarrow> untouched s (u\<lparr>world := w, calls := c\<rparr>)"
  by (simp add: untouched_def)

lemma untouched_link_events: "untouched s u \<Longrightarrow> untouched s (link_events p es u)"
  by (induction es arbitrary: u) (simp_all add: untouched_addEdge)

lemma untouched_link_papers: "untouched s u \<Longrightarrow> untouched s (link_papers ps es u)"
  by (induction ps arbitrary: u) (simp_all add: untouched_link_events)

lemma untouched_records: "untouched s (snd (ingest_records embedF ps es ls s))"
proof -
  let ?s1 = "snd (ingest_loop paper_text store_paper embedF ps s)"
  have a: "untouched s ?s1"
    by (rule loop_invariant[where P = "untouched s", OF untouched_store(1) untouched_wc untouched_refl])
  let ?s2 = "snd (ingest_loop event_text store_event embedF es ?s1)"
  have b: "untouched s ?s2"
    by (rule loop_invariant[where P = "untouched s", OF untouched_store(2) untouched_wc a])
  let ?s3 = "snd (ingest_loop policy_text store_policy embedF ls ?s2)"
  have c: "untouched s ?s3"
    by (rule loop_invariant[where P = "untouched s", OF untouched_store(3) untouched_wc b])
  have d: "untouched s (link_papers ps es ?s3)"
    using c by (rule untouched_link_papers)
  show ?thesis
    unfolding ingest_records_unfold Let_def using a b c d by simp
qed

lemma ingest_try_records:
  "ingest_try embedF (Some ps) (Some es) (Some ls) s = ingest_records embedF ps es ls (resetGraph s)"
  by (simp add: ingest_try_def)

lemma untouched_try:
  "untouched (resetGraph s) (snd (ingest_try embedF pj ej lj s))"
  by (cases pj; cases ej; cases lj)
     (simp_all add: ingest_try_def untouched_refl untouched_records)

lemma ingestAll_unfold:
  "truthy key \<Longrightarrow>
   ingestAll key embedF pj ej lj s =
     (let r = ingest_try embedF pj ej lj (s\<lparr>error := [], loadingIngest := True\<rparr>)
      in case fst r of
           Done \<Rightarrow> (snd r)\<lparr>loadingIngest := False\<rparr>
         | Thrown msg \<Rightarrow>
             (snd r)\<lparr>error := (if msg = [] then ''Ingestion failed.'' else msg), loadingIngest := False\<rparr>)"
  by (cases "ingest_try embedF pj ej lj (s\<lparr>error := [], loadingIngest := True\<rparr>)")
     (simp add: ingestAll_def Let_def split: outcome.splits)

section \<open>Invariants of the store\<close>

lemma upsert_key_set: "fst ` set (upsert_node i attrs prev) = insert i (fst ` set prev)"
  by (simp add: upsert_node_def Let_def dom_update)

lemma upsert_distinct: "distinct (map fst prev) \<Longrightarrow> distinct (map fst (upsert_node i attrs prev))"
  by (simp add: upsert_keys)

lemma closed_addNode: "closed s \<Longrightarrow> closed (addNode i attrs emb s)"
  by (auto simp: closed_def addNode_nodes addNode_edges upsert_key_set upsert_distinct)

lemma closed_addEdge:
  "closed s \<Longrightarrow> a \<in> fst ` set (nodesMap s) \<Longrightarrow> b \<in> fst ` set (nodesMap s)
     \<Longrightarrow> closed (addEdge a b r s)"
  by (auto simp: closed_def addEdge_def)

lemma addNode_has_key: "i \<in> fst ` set (nodesMap (addNode i attrs emb s))"
  by (simp add: addNode_nodes upsert_key_set)

lemma addNode_keeps_key:
  "k \<in> fst ` set (nodesMap s) \<Longrightarrow> k \<in> fst ` set (nodesMap (addNode i attrs emb s))"
  by (simp add: addNode_nodes upsert_key_set)

lemma closed_store:
  "closed s \<Longrightarrow> closed (store_paper p emb s)"
  "closed s \<Longrightarrow> closed (store_event p emb s)"
  "closed s \<Longrightarrow> closed (store_policy p emb s)"
  by (simp_all add: store_paper_def store_event_def store_policy_def Let_def closed_addNode
        closed_addEdge addNode_has_key addNode_keeps_key)

lemma closed_wc: "closed s \<Longrightarrow> closed (s\<lparr>world := w, calls := c\<rparr>)"
  by (simp add: closed_def)

lemma closed_link_events:
  "closed s \<Longrightarrow> paper_id p \<in> fst ` set (nodesMap s)
     \<Longrightarrow> event_id ` set es \<subseteq> fst ` set (nodesMap s)
     \<Longrightarrow> closed (link_events p es s) \<and> nodesMap (link_events p es s) = nodesMap s"
proof (induction es arbitrary: s)
  case Nil
  then show ?case by simp
next
  case (Cons e es)
  let ?s = "if mentions p e then addEdge (paper_id p) (event_id e) ''MENTIONS_EVENT'' s else s"
  have n: "nodesMap ?s = nodesMap s" by (simp add: addEdge_def)
  have c: "closed ?s" using Cons.prems by (simp add: closed_addEdge)
  from Cons.IH[of ?s] c n Cons.prems show ?case by simp
qed

lemma closed_link_papers:
  "closed s \<Longrightarrow> paper_id ` set ps \<subseteq> fst ` set (nodesMap s)
     \<Longrightarrow> event_id ` set es \<subseteq> fst ` set (nodesMap s)
     \<Longrightarrow> closed (link_papers ps es s)"
proof (induction ps arbitrary: s)
  case Nil
  then show ?case by simp
next
  case (Cons p ps)
  from closed_link_events[of s p es] Cons.prems
  have "closed (link_events p es s)" and "nodesMap (link_events p es s) = nodesMap s"
    by auto
  with Cons.IH[of "link_events p es s"] Cons.prems show ?case by simp
qed

lemma fold_upsert_keys:
  assumes "\<And>x nodes. fst ` set nodes \<subseteq> fst ` set (nf x nodes)"
  shows "fst ` set nodes \<subseteq> fst ` set (fold nf xs nodes)"
proof (induction xs arbitrary: nodes)
  case Nil
  show ?case by simp
next
  case (Cons x xs)
  from assms[of nodes x] Cons[of "nf x nodes"] show ?case by auto
qed

lemma fold_upsert_has:
  assumes "\<And>x nodes. fst ` set nodes \<subseteq> fst ` set (nf x nodes)"
    and "\<And>x nodes. f x \<in> fst ` set (nf x nodes)"
  shows "f ` set xs \<subseteq> fst ` set (fold nf xs nodes)"
proof (induction xs arbitrary: nodes)
  case Nil
  show ?case by simp
next
  case (Cons x xs)
  have "f x \<in> fst ` set (fold nf xs (nf x nodes))"
    using fold_upsert_keys[of nf "nf x nodes" xs, OF assms(1)] assms(2)[of x nodes] by blast
  with Cons[of "nf x nodes"] show ?case by simp
qed

lemma event_upserts_mono: "fst ` set nodes \<subseteq> fst ` set (event_upserts e nodes)"
  by (auto simp: event_upserts_def Let_def upsert_key_set)

lemma event_upserts_has: "event_id e \<in> fst ` set (event_upserts e nodes)"
  by (auto simp: event_upserts_def Let_def upsert_key_set)

lemma policy_upserts_mono: "fst ` set nodes \<subseteq> fst ` set (policy_upserts e nodes)"
  by (auto simp: policy_upserts_def Let_def upsert_key_set)

lemma paper_upserts_mono:
  "fst ` set nodes \<subseteq> fst ` set (upsert_node (paper_id p) (paper_attrs p) nodes)"
  by (auto simp: upsert_key_set)

lemma paper_upserts_has:
  "paper_id p \<in> fst ` set (upsert_node (paper_id p) (paper_attrs p) nodes)"
  by (simp add: upsert_key_set)

lemma closed_records:
  assumes "closed s"
  shows "closed (snd (ingest_records embedF ps es ls s))"
proof -
  let ?r1 = "ingest_loop paper_text store_paper embedF ps s"
  let ?r2 = "ingest_loop event_text store_event embedF es (snd ?r1)"
  let ?r3 = "ingest_loop policy_text store_policy embedF ls (snd ?r2)"
  have a: "closed (snd ?r1)"
    by (rule loop_invariant[where P = closed, OF closed_store(1) closed_wc assms])
  have b: "closed (snd ?r2)"
    by (rule loop_invariant[where P = closed, OF closed_store(2) closed_wc a])
  have c: "closed (snd ?r3)"
    by (rule loop_invariant[where P = closed, OF closed_store(3) closed_wc b])
  have d: "closed (link_papers ps es (snd ?r3))"
    if d1: "fst ?r1 = Done" and d2: "fst ?r2 = Done" and d3: "fst ?r3 = Done"
  proof -
    have e1: "?r1 = (Done, snd ?r1)" using d1 by (simp add: prod_eq_iff)
    have e2: "?r2 = (Done, snd ?r2)" using d2 by (simp add: prod_eq_iff)
    have e3: "?r3 = (Done, snd ?r3)" using d3 by (simp add: prod_eq_iff)
    note g1 = loop_done_graph[where store = store_paper, OF store_paper_graph e1]
    note g2 = loop_done_graph[where store = store_event, OF store_event_graph e2]
    note g3 = loop_done_graph[where store = store_policy, OF store_policy_graph e3]
    have k1: "paper_id ` set ps \<subseteq> fst ` set (nodesMap (snd ?r1))"
      using g1 fold_upsert_has[of "\<lambda>p. upsert_node (paper_id p) (paper_attrs p)" paper_id ps "nodesMap s",
          OF paper_upserts_mono paper_upserts_has]
      by simp
    have m2: "fst ` set (nodesMap (snd ?r1)) \<subseteq> fst ` set (nodesMap (snd ?r2))"
      using g2 fold_upsert_keys[of event_upserts "nodesMap (snd ?r1)" es, OF event_upserts_mono]
      by simp
    have k2: "event_id ` set es \<subseteq> fst ` set (nodesMap (snd ?r2))"
      using g2 fold_upsert_has[of event_upserts event_id es "nodesMap (snd ?r1)",
          OF event_upserts_mono event_upserts_has]
      by simp
    have m3: "fst ` set (nodesMap (snd ?r2)) \<subseteq> fst ` set (nodesMap (snd ?r3))"
      using g3 fold_upsert_keys[of policy_upserts "nodesMap (snd ?r2)" ls, OF policy_upserts_mono]
      by simp
    from k1 m2 m3 have p: "paper_id ` set ps \<subseteq> fst ` set (nodesMap (snd ?r3))" by blast
    from k2 m3 have e: "event_id ` set es \<subseteq> fst ` set (nodesMap (snd ?r3))" by blast
    from c p e show ?thesis by (rule closed_link_papers)
  qed
  show ?thesis
    unfolding ingest_records_unfold Let_def using a b c d by simp
qed

lemma closed_reset: "closed (resetGraph s)"
  by (simp add: closed_def resetGraph_def)

lemma closed_try: "closed (snd (ingest_try embedF pj ej lj s))"
  by (cases pj; cases ej; cases lj)
     (simp_all add: ingest_try_def closed_reset closed_records)

lemma closed_fields: "closed (s\<lparr>error := e, loadingIngest := l\<rparr>) = closed s"
  "closed (s\<lparr>loadingIngest := l\<rparr>) = closed s"  "closed (s\<lparr>error := e\<rparr>) = closed s"
  by (simp_all add: closed_def)

lemma ingestAll_closed:
  assumes "truthy key \<or> closed s"
  shows "closed (ingestAll key embedF pj ej lj s)"
proof (cases "truthy key")
  case True
  let ?r = "ingest_try embedF pj ej lj (s\<lparr>error := [], loadingIngest := True\<rparr>)"
  have "closed (snd ?r)" by (rule closed_try)
  then show ?thesis
    by (cases "fst ?r") (simp_all add: ingestAll_unfold[OF True] Let_def closed_fields)
next
  case False
  with assms show ?thesis by (simp add: ingestAll_def closed_fields)
qed

lemma ingestAll_handshake:
  assumes "truthy key"
  shows "(\<Sum>i\<leftarrow>map fst (nodesMap (ingestAll key embedF pj ej lj s)).
            the (degrees (nodesMap (ingestAll key embedF pj ej lj s))
                   (edges (ingestAll key embedF pj ej lj s)) i))
         = 2 * length (edges (ingestAll key embedF pj ej lj s))"
proof -
  have "closed (ingestAll key embedF pj ej lj s)"
    using assms by (simp add: ingestAll_closed)
  then show ?thesis
    unfolding closed_def by (intro degrees_sum) blast+
qed

lemma list_all_update:
  "list_all P al \<Longrightarrow> P (k, v) \<Longrightarrow> list_all P (AList.update k v al)"
  by (induction al) auto

lemma ids_ok_addNode:
  assumes "ids_ok s" and "strs attrs ''id'' = None"
  shows "ids_ok (addNode i attrs emb s)"
proof -
  let ?old = "case map_of (nodesMap s) i of None \<Rightarrow> empty_obj | Some n \<Rightarrow> n"
  have "strs (merge_node ?old i attrs) ''id'' = Some (Val i)"
    using assms(2) by (simp add: merge_node_strs)
  then have n: "list_all (\<lambda>(k, n). strs n ''id'' = Some (Val k)) (upsert_node i attrs (nodesMap s))"
    using assms(1) by (simp add: ids_ok_def upsert_node_def Let_def list_all_update)
  have e: "fst ` set (embeddings (addNode i attrs emb s)) \<subseteq> insert i (fst ` set (nodesMap s))"
    using assms(1) by (cases emb) (auto simp: ids_ok_def addNode_def dom_update)
  show ?thesis
    using n e by (simp add: ids_ok_def addNode_nodes upsert_key_set)
qed

lemma ids_ok_addEdge: "ids_ok s \<Longrightarrow> ids_ok (addEdge a b r s)"
  by (simp add: ids_ok_def addEdge_def)

lemma attrs_no_id:
  "strs (paper_attrs p) ''id'' = None" "strs (event_attrs p) ''id'' = None"
  "strs (policy_attrs p) ''id'' = None" "strs (location_attrs r) ''id'' = None"
  by (simp_all add: paper_attrs_def event_attrs_def policy_attrs_def location_attrs_def)

lemma ids_ok_store:
  "ids_ok s \<Longrightarrow> ids_ok (store_paper p emb s)"
  "ids_ok s \<Longrightarrow> ids_ok (store_event p emb s)"
  "ids_ok s \<Longrightarrow> ids_ok (store_policy p emb s)"
  by (simp_all add: store_paper_def store_event_def store_policy_def Let_def ids_ok_addNode
        ids_ok_addEdge attrs_no_id)

lemma ids_ok_wc: "ids_ok s \<Longrightarrow> ids_ok (s\<lparr>world := w, calls := c\<rparr>)"
  by (simp add: ids_ok_def)

lemma ids_ok_link_events: "ids_ok s \<Longrightarrow> ids_ok (link_events p es s)"
  by (induction es arbitrary: s) (simp_all add: ids_ok_addEdge)

lemma ids_ok_link_papers: "ids_ok s \<Longrightarrow> ids_ok (link_papers ps es s)"
  by (induction ps arbitrary: s) (simp_all add: ids_ok_link_events)

lemma ids_ok_records:
  assumes "ids_ok s"
  shows "ids_ok (snd (ingest_records embedF ps es ls s))"
proof -
  let ?r1 = "ingest_loop paper_text store_paper embedF ps s"
  let ?r2 = "ingest_loop event_text store_event embedF es (snd ?r1)"
  let ?r3 = "ingest_loop policy_text store_policy embedF ls (snd ?r2)"
  have a: "ids_ok (snd ?r1)"
    by (rule loop_invariant[where P = ids_ok, OF ids_ok_store(1) ids_ok_wc assms])
  have b: "ids_ok (snd ?r2)"
    by (rule loop_invariant[where P = ids_ok, OF ids_ok_store(2) ids_ok_wc a])
  have c: "ids_ok (snd ?r3)"
    by (rule loop_invariant[where P = ids_ok, OF ids_ok_store(3) ids_ok_wc b])
  have d: "ids_ok (link_papers ps es (snd ?r3))"
    using c by (rule ids_ok_link_papers)
  show ?thesis
    unfolding ingest_records_unfold Let_def using a b c d by simp
qed

lemma ids_ok_reset: "ids_ok (resetGraph s)"
  by (simp add: ids_ok_def resetGraph_def)

lemma ids_ok_try: "ids_ok (snd (ingest_try embedF pj ej lj s))"
  by (cases pj; cases ej; cases lj)
     (simp_all add: ingest_try_def ids_ok_reset ids_ok_records)

lemma ids_ok_fields: "ids_ok (s\<lparr>error := e, loadingIngest := l\<rparr>) = ids_ok s"
  "ids_ok (s\<lparr>loadingIngest := l\<rparr>) = ids_ok s"  "ids_ok (s\<lparr>error := e\<rparr>) = ids_ok s"
  by (simp_all add: ids_ok_def)

lemma ingestAll_ids_ok:
  assumes "truthy key \<or> ids_ok s"
  shows "ids_ok (ingestAll key embedF pj ej lj s)"
proof (cases "truthy key")
  case True
  let ?r = "ingest_try embedF pj ej lj (s\<lparr>error := [], loadingIngest := True\<rparr>)"
  have "ids_ok (snd ?r)" by (rule ids_ok_try)
  then show ?thesis
    by (cases "fst ?r") (simp_all add: ingestAll_unfold[OF True] Let_def ids_ok_fields)
next
  case False
  with assms show ?thesis by (simp add: ingestAll_def ids_ok_fields)
qed

section \<open>Providers whose answer depends on the text only\<close>

lemma loop_same_graph:
  assumes det: "text_only embedF"
    and st: "\<And>x emb u v. same_graph u v \<Longrightarrow> same_graph (store x emb u) (store x emb v)"
  shows "same_graph s t \<Longrightarrow>
         fst (ingest_loop text_of store embedF xs s) = fst (ingest_loop text_of store embedF xs t)
         \<and> same_graph (snd (ingest_loop text_of store embedF xs s))
                       (snd (ingest_loop text_of store embedF xs t))"
proof (induction xs arbitrary: s t)
  case Nil
  then show ?case by simp
next
  case (Cons x xs)
  obtain r w where e: "embedF (text_of x) (world s) = (r, w)"
    by (cases "embedF (text_of x) (world s)")
  obtain r' w' where e': "embedF (text_of x) (world t) = (r', w')"
    by (cases "embedF (text_of x) (world t)")
  have rr: "r' = r"
    using det e e' unfolding text_only_def by (metis fst_conv)
  let ?s1 = "s\<lparr>world := w, calls := calls s @ [EmbedCall (text_of x)]\<rparr>"
  let ?t1 = "t\<lparr>world := w', calls := calls t @ [EmbedCall (text_of x)]\<rparr>"
  have r1: "same_graph ?s1 ?t1" using Cons.prems by (simp add: same_graph_def)
  show ?case
  proof (cases r)
    case (Inl msg)
    with e e' rr r1 show ?thesis by (simp add: getEmbedding_def)
  next
    case (Inr emb)
    have "same_graph (store x emb ?s1) (store x emb ?t1)" using r1 by (rule st)
    from Cons.IH[OF this] e e' rr Inr show ?thesis by (simp add: getEmbedding_def)
  qed
qed

lemma same_graph_addNode: "same_graph u v \<Longrightarrow> same_graph (addNode i a emb u) (addNode i a emb v)"
  by (cases emb) (simp_all add: same_graph_def addNode_def)

lemma same_graph_addEdge: "same_graph u v \<Longrightarrow> same_graph (addEdge a b c u) (addEdge a b c v)"
  by (simp add: same_graph_def addEdge_def)

lemma same_graph_store:
  "same_graph u v \<Longrightarrow> same_graph (store_paper p emb u) (store_paper p emb v)"
  "same_graph u v \<Longrightarrow> same_graph (store_event p emb u) (store_event p emb v)"
  "same_graph u v \<Longrightarrow> same_graph (store_policy p emb u) (store_policy p emb v)"
  by (simp_all add: store_paper_def store_event_def store_policy_def Let_def same_graph_addNode
        same_graph_addEdge)

lemma same_graph_link_events: "same_graph u v \<Longrightarrow> same_graph (link_events p es u) (link_events p es v)"
  by (induction es arbitrary: u v) (simp_all add: same_graph_addEdge)

lemma same_graph_link_papers: "same_graph u v \<Longrightarrow> same_graph (link_papers ps es u) (link_papers ps es v)"
  by (induction ps arbitrary: u v) (simp_all add: same_graph_link_events)

lemma same_graph_records:
  assumes det: "text_only embedF" and "same_graph s t"
  shows "fst (ingest_records embedF ps es ls s) = fst (ingest_records embedF ps es ls t)
       \<and> same_graph (snd (ingest_records embedF ps es ls s)) (snd (ingest_records embedF ps es ls t))"
proof -
  note a = loop_same_graph[where store = store_paper and text_of = paper_text
      and xs = ps, OF det same_graph_store(1) assms(2)]
  let ?s1 = "snd (ingest_loop paper_text store_paper embedF ps s)"
  let ?t1 = "snd (ingest_loop paper_text store_paper embedF ps t)"
  from a have a2: "same_graph ?s1 ?t1" by blast
  note b = loop_same_graph[where store = store_event and text_of = event_text
      and xs = es, OF det same_graph_store(2) a2]
  let ?s2 = "snd (ingest_loop event_text store_event embedF es ?s1)"
  let ?t2 = "snd (ingest_loop event_text store_event embedF es ?t1)"
  from b have b2: "same_graph ?s2 ?t2" by blast
  note c = loop_same_graph[where store = store_policy and text_of = policy_text
      and xs = ls, OF det same_graph_store(3) b2]
  let ?s3 = "snd (ingest_loop policy_text store_policy embedF ls ?s2)"
  let ?t3 = "snd (ingest_loop policy_text store_policy embedF ls ?t2)"
  from c have c2: "same_graph ?s3 ?t3" by blast
  note d = same_graph_link_papers[OF c2, of ps es]
  show ?thesis
    unfolding ingest_records_unfold Let_def
    using a b c d by simp
qed

lemma same_graph_reset: "same_graph (resetGraph s) (resetGraph t)"
  by (simp add: same_graph_def resetGraph_def)

section \<open>Failing runs\<close>

lemma records_fail_papers:
  assumes "ingest_papers embedF pre s0 = (Done, s1)"
    and "getEmbedding embedF (paper_text p) s1 = (Inl msg, s2)"
  shows "ingest_records embedF (pre @ p # post) es ls s0 = (Thrown msg, s2)"
proof -
  have "ingest_loop paper_text store_paper embedF (pre @ p # post) s0 = (Thrown msg, s2)"
    using assms by (intro loop_fails_at) (simp_all add: ingest_papers_loop)
  then show ?thesis by (simp add: ingest_records_unfold)
qed

lemma records_fail_events:
  assumes "ingest_papers embedF ps s0 = (Done, sp)"
    and "ingest_events embedF pre sp = (Done, s1)"
    and "getEmbedding embedF (event_text e) s1 = (Inl msg, s2)"
  shows "ingest_records embedF ps (pre @ e # post) ls s0 = (Thrown msg, s2)"
proof -
  have "ingest_loop event_text store_event embedF (pre @ e # post) sp = (Thrown msg, s2)"
    using assms by (intro loop_fails_at) (simp_all add: ingest_events_loop)
  with assms(1) show ?thesis by (simp add: ingest_records_unfold ingest_papers_loop)
qed

lemma records_fail_policies:
  assumes "ingest_papers embedF ps s0 = (Done, sp)"
    and "ingest_events embedF es sp = (Done, se)"
    and "ingest_policies embedF pre se = (Done, s1)"
    and "getEmbedding embedF (policy_text p) s1 = (Inl msg, s2)"
  shows "ingest_records embedF ps es (pre @ p # post) s0 = (Thrown msg, s2)"
proof -
  have "ingest_loop policy_text store_policy embedF (pre @ p # post) se = (Thrown msg, s2)"
    using assms by (intro loop_fails_at) (simp_all add: ingest_policies_loop)
  with assms(1,2) show ?thesis
    by (simp add: ingest_records_unfold ingest_papers_loop ingest_events_loop)
qed

text \<open>
  Claim C6.  Let the embedding request for a record fail after the records before it
  (all papers before a paper; all papers and the events before an event; all papers, all
  events and the policies before a policy) have been ingested, reaching the state \<open>s1\<close>.
  Then \<^verbatim>\<open>ingestAll\<close> ends in the state of that moment: the entities, relationships and
  embeddings of \<open>s1\<close> are all still there, the failed request is the last request made, the
  error message is shown, and no record after the failing one and no keyword link is
  processed, whatever they are.
\<close>

theorem ingest_fail_fast:
  assumes key: "truthy key"
    and s0: "s0 = resetGraph (s\<lparr>error := [], loadingIngest := True\<rparr>)"
    and at: "(\<exists>pre p post. papers = pre @ p # post \<and> text = paper_text p
                \<and> ingest_papers embedF pre s0 = (Done, s1))
           \<or> (\<exists>sp pre e post. events = pre @ e # post \<and> text = event_text e
                \<and> ingest_papers embedF papers s0 = (Done, sp)
                \<and> ingest_events embedF pre sp = (Done, s1))
           \<or> (\<exists>sp se pre p post. policies = pre @ p # post \<and> text = policy_text p
                \<and> ingest_papers embedF papers s0 = (Done, sp)
                \<and> ingest_events embedF events sp = (Done, se)
                \<and> ingest_policies embedF pre se = (Done, s1))"
    and fail: "getEmbedding embedF text s1 = (Inl msg, s2)"
  shows "ingestAll key embedF (Some papers) (Some events) (Some policies) s =
           s2\<lparr>error := (if msg = [] then ''Ingestion failed.'' else msg), loadingIngest := False\<rparr>
       \<and> nodesMap s2 = nodesMap s1 \<and> edges s2 = edges s1 \<and> embeddings s2 = embeddings s1
       \<and> calls s2 = calls s1 @ [EmbedCall text]"
proof -
  have run: "ingest_records embedF papers events policies s0 = (Thrown msg, s2)"
    using at fail
    by (auto intro: records_fail_papers records_fail_events records_fail_policies)
  have "ingestAll key embedF (Some papers) (Some events) (Some policies) s =
           s2\<lparr>error := (if msg = [] then ''Ingestion failed.'' else msg), loadingIngest := False\<rparr>"
    using run by (simp add: ingestAll_unfold[OF key] ingest_try_records s0)
  with getEmbedding_store[OF fail] show ?thesis by simp
qed

theorem ingest_fail_fast_witness:
  "truthy api_key
   \<and> fst (ingest_events (embed_quota 1) [storm_event] quota_start) = Done
   \<and> fst (getEmbedding (embed_quota 1) (event_text flood_event) quota_before)
       = Inl ''Embedding error: quota''
   \<and> quota_app = quota_failed\<lparr>error := ''Embedding error: quota'', loadingIngest := False\<rparr>
   \<and> map fst (nodesMap quota_app) = [''event:e1'', ''location:X'']
   \<and> map fst (embeddings quota_app) = [''event:e1'']
   \<and> length (edges quota_app) = 1
   \<and> calls quota_app = [EmbedCall (event_text storm_event), EmbedCall (event_text flood_event)]"
proof -
  have k: "truthy api_key" by (simp add: api_key_def)
  have p: "ingest_papers (embed_quota 1) [] quota_start = (Done, quota_start)" by simp
  have d: "fst (ingest_events (embed_quota 1) [storm_event] quota_start) = Done"
    by (simp add: quota_start_def ev)
  then have e: "ingest_events (embed_quota 1) [storm_event] quota_start = (Done, quota_before)"
    by (simp add: quota_before_def prod_eq_iff)
  have f: "fst (getEmbedding (embed_quota 1) (event_text flood_event) quota_before)
       = Inl ''Embedding error: quota''"
    by (simp add: quota_before_def quota_start_def ev)
  then have g: "getEmbedding (embed_quota 1) (event_text flood_event) quota_before
       = (Inl ''Embedding error: quota'', quota_failed)"
    by (simp add: quota_failed_def prod_eq_iff)
  have at: "(\<exists>pre p post. [] = pre @ p # post \<and> event_text flood_event = paper_text p
                \<and> ingest_papers (embed_quota 1) pre quota_start = (Done, quota_before))
           \<or> (\<exists>sp pre e post. [storm_event, flood_event] = pre @ e # post
                \<and> event_text flood_event = event_text e
                \<and> ingest_papers (embed_quota 1) [] quota_start = (Done, sp)
                \<and> ingest_events (embed_quota 1) pre sp = (Done, quota_before))
           \<or> (\<exists>sp se pre p post. [] = pre @ p # post \<and> event_text flood_event = policy_text p
                \<and> ingest_papers (embed_quota 1) [] quota_start = (Done, sp)
                \<and> ingest_events (embed_quota 1) [storm_event, flood_event] sp = (Done, se)
                \<and> ingest_policies (embed_quota 1) pre se = (Done, quota_before))"
  proof -
    have "[storm_event, flood_event] = [storm_event] @ flood_event # []" by simp
    with p e have "\<exists>sp pre e post. [storm_event, flood_event] = pre @ e # post
                \<and> event_text flood_event = event_text e
                \<and> ingest_papers (embed_quota 1) [] quota_start = (Done, sp)
                \<and> ingest_events (embed_quota 1) pre sp = (Done, quota_before)"
      by blast
    then show ?thesis by blast
  qed
  note t = ingest_fail_fast[OF k quota_start_def at g]
  have q: "quota_app = quota_failed\<lparr>error := ''Embedding error: quota'', loadingIngest := False\<rparr>"
    using t by (simp add: quota_app_def)
  have n: "map fst (nodesMap quota_app) = [''event:e1'', ''location:X'']"
    by (simp add: quota_app_def ev)
  have m: "map fst (embeddings quota_app) = [''event:e1'']"
    by (simp add: quota_app_def ev)
  have l: "length (edges quota_app) = 1"
    by (simp add: quota_app_def ev)
  have c: "calls quota_app = [EmbedCall (event_text storm_event), EmbedCall (event_text flood_event)]"
    by (simp add: quota_app_def ev)
  show ?thesis by (intro conjI k d f q n m l c)
qed

lemma try_reset_fields:
  "selectedNodeId (snd (ingest_try embedF pj ej lj s)) = None
   \<and> selectedNodeSummary (snd (ingest_try embedF pj ej lj s)) = []
   \<and> ragAnswer (snd (ingest_try embedF pj ej lj s)) = []
   \<and> ragContexts (snd (ingest_try embedF pj ej lj s)) = []
   \<and> error (snd (ingest_try embedF pj ej lj s)) = error s"
  using untouched_try[of s embedF pj ej lj] by (simp add: untouched_def resetGraph_def)

lemma ingestAll_error_done:
  assumes key: "truthy key" and ok: "error (ingestAll key embedF pj ej lj s) = []"
  shows "\<exists>ps es ls s1. pj = Some ps \<and> ej = Some es \<and> lj = Some ls
           \<and> ingest_records embedF ps es ls (resetGraph (s\<lparr>error := [], loadingIngest := True\<rparr>))
               = (Done, s1)
           \<and> ingestAll key embedF pj ej lj s = s1\<lparr>loadingIngest := False\<rparr>"
proof -
  let ?r = "ingest_try embedF pj ej lj (s\<lparr>error := [], loadingIngest := True\<rparr>)"
  have d: "fst ?r = Done"
    using ok by (cases "fst ?r") (simp_all add: ingestAll_unfold[OF key] Let_def split: if_splits)
  then have fin: "ingestAll key embedF pj ej lj s = (snd ?r)\<lparr>loadingIngest := False\<rparr>"
    by (simp add: ingestAll_unfold[OF key] Let_def)
  from d obtain ps es ls where j: "pj = Some ps" "ej = Some es" "lj = Some ls"
    by (cases pj; cases ej; cases lj) (simp_all add: ingest_try_def)
  have "ingest_records embedF ps es ls (resetGraph (s\<lparr>error := [], loadingIngest := True\<rparr>))
          = (Done, snd ?r)"
    using d j by (simp add: ingest_try_records prod_eq_iff)
  with j fin show ?thesis by blast
qed

lemma same_graph_try:
  assumes "text_only embedF"
  shows "fst (ingest_try embedF pj ej lj s) = fst (ingest_try embedF pj ej lj t)
       \<and> same_graph (snd (ingest_try embedF pj ej lj s)) (snd (ingest_try embedF pj ej lj t))"
proof -
  note r = same_graph_reset[of s t]
  show ?thesis
  proof (cases pj)
    case None
    with r show ?thesis by (simp add: ingest_try_def)
  next
    case p: (Some ps)
    show ?thesis
    proof (cases ej)
      case None
      with r p show ?thesis by (simp add: ingest_try_def)
    next
      case e: (Some es)
      show ?thesis
      proof (cases lj)
        case None
        with r p e show ?thesis by (simp add: ingest_try_def)
      next
        case (Some ls)
        with p e same_graph_records[OF assms r, of ps es ls] show ?thesis
          by (simp add: ingest_try_records)
      qed
    qed
  qed
qed

lemma ingestAll_same_graph:
  assumes key: "truthy key" and det: "text_only embedF"
  shows "nodesMap (ingestAll key embedF pj ej lj s) = nodesMap (ingestAll key embedF pj ej lj t)
       \<and> edges (ingestAll key embedF pj ej lj s) = edges (ingestAll key embedF pj ej lj t)
       \<and> embeddings (ingestAll key embedF pj ej lj s) = embeddings (ingestAll key embedF pj ej lj t)
       \<and> error (ingestAll key embedF pj ej lj s) = error (ingestAll key embedF pj ej lj t)"
proof -
  let ?rs = "ingest_try embedF pj ej lj (s\<lparr>error := [], loadingIngest := True\<rparr>)"
  let ?rt = "ingest_try embedF pj ej lj (t\<lparr>error := [], loadingIngest := True\<rparr>)"
  note a = same_graph_try[OF det, of pj ej lj "s\<lparr>error := [], loadingIngest := True\<rparr>"
      "t\<lparr>error := [], loadingIngest := True\<rparr>"]
  from a have f: "fst ?rs = fst ?rt" and g: "same_graph (snd ?rs) (snd ?rt)" by blast+
  note es = try_reset_fields[of embedF pj ej lj "s\<lparr>error := [], loadingIngest := True\<rparr>"]
  note et = try_reset_fields[of embedF pj ej lj "t\<lparr>error := [], loadingIngest := True\<rparr>"]
  show ?thesis
    using f g es et
    by (cases "fst ?rt") (simp_all add: ingestAll_unfold[OF key] Let_def same_graph_def)
qed

section \<open>Re-running\<close>

lemma loop_graph_any:
  assumes n: "\<And>x emb s. nodesMap (store x emb s) = nf x (nodesMap s)"
    and e: "\<And>x emb s. edges (store x emb s) = edges s @ ef x"
  shows "\<exists>k. nodesMap (snd (ingest_loop text_of store embedF xs s)) = fold nf (take k xs) (nodesMap s)
           \<and> edges (snd (ingest_loop text_of store embedF xs s)) = edges s @ concat (map ef (take k xs))"
proof (induction xs arbitrary: s)
  case Nil
  show ?case by simp
next
  case (Cons x xs)
  obtain r s1 where ge: "getEmbedding embedF (text_of x) s = (r, s1)"
    by (cases "getEmbedding embedF (text_of x) s")
  from getEmbedding_store[OF ge] have st: "nodesMap s1 = nodesMap s" "edges s1 = edges s"
    by simp_all
  show ?case
  proof (cases r)
    case (Inl msg)
    with ge have ge': "getEmbedding embedF (text_of x) s = (Inl msg, s1)" by simp
    with st have "nodesMap (snd (ingest_loop text_of store embedF (x # xs) s)) = fold nf (take 0 (x # xs)) (nodesMap s)
           \<and> edges (snd (ingest_loop text_of store embedF (x # xs) s)) = edges s @ concat (map ef (take 0 (x # xs)))"
      by simp
    then show ?thesis by (rule exI)
  next
    case (Inr emb)
    from Cons[of "store x emb s1"] obtain k where
      k: "nodesMap (snd (ingest_loop text_of store embedF xs (store x emb s1)))
            = fold nf (take k xs) (nodesMap (store x emb s1))"
         "edges (snd (ingest_loop text_of store embedF xs (store x emb s1)))
            = edges (store x emb s1) @ concat (map ef (take k xs))"
      by blast
    from ge Inr have ge': "getEmbedding embedF (text_of x) s = (Inr emb, s1)" by simp
    have "nodesMap (snd (ingest_loop text_of store embedF (x # xs) s)) = fold nf (take (Suc k) (x # xs)) (nodesMap s)
           \<and> edges (snd (ingest_loop text_of store embedF (x # xs) s)) = edges s @ concat (map ef (take (Suc k) (x # xs)))"
      using ge' k st by (simp add: n e)
    then show ?thesis by (rule exI)
  qed
qed

lemma prefix_concat_take: "prefix (concat (map f (take k xs))) (concat (map f xs))"
proof -
  have "concat (map f xs) = concat (map f (take k xs)) @ concat (map f (drop k xs))"
    by (metis append_take_drop_id concat_append map_append)
  then show ?thesis by (simp add: prefixI)
qed

lemma records_links_prefix:
  "\<exists>X. edges (snd (ingest_records embedF ps es ls s)) = edges s @ X \<and> prefix X (run_links ps es ls)"
proof -
  let ?r1 = "ingest_loop paper_text store_paper embedF ps s"
  let ?r2 = "ingest_loop event_text store_event embedF es (snd ?r1)"
  let ?r3 = "ingest_loop policy_text store_policy embedF ls (snd ?r2)"
  from loop_graph_any[where store = store_paper, OF store_paper_graph, of paper_text embedF ps s]
  have e1: "edges (snd ?r1) = edges s" by auto
  show ?thesis
  proof (cases "fst ?r1 = Done")
    case False
    then have "ingest_records embedF ps es ls s = ?r1" by (simp add: ingest_records_unfold)
    with e1 show ?thesis by simp
  next
    case d1: True
    from loop_graph_any[where store = store_event, OF store_event_graph, of event_text embedF es "snd ?r1"]
    obtain k where e2: "edges (snd ?r2) = edges s @ concat (map event_links (take k es))"
      using e1 by auto
    show ?thesis
    proof (cases "fst ?r2 = Done")
      case False
      with d1 have "ingest_records embedF ps es ls s = ?r2" by (simp add: ingest_records_unfold Let_def)
      moreover have "prefix (concat (map event_links (take k es))) (run_links ps es ls)"
        unfolding run_links_def using prefix_concat_take[of event_links k es] by (rule prefix_prefix)
      ultimately show ?thesis using e2 by simp
    next
      case d2: True
      then have "?r2 = (Done, snd ?r2)" by (simp add: prod_eq_iff)
      from loop_done_graph[where store = store_event, OF store_event_graph this]
      have f2: "edges (snd ?r2) = edges s @ concat (map event_links es)" using e1 by simp
      from loop_graph_any[where store = store_policy, OF store_policy_graph, of policy_text embedF ls "snd ?r2"]
      obtain j where e3: "edges (snd ?r3) = edges s @ concat (map event_links es) @ concat (map policy_links (take j ls))"
        using f2 by auto
      show ?thesis
      proof (cases "fst ?r3 = Done")
        case False
        with d1 d2 have "ingest_records embedF ps es ls s = ?r3" by (simp add: ingest_records_unfold Let_def)
        moreover have "prefix (concat (map event_links es) @ concat (map policy_links (take j ls))) (run_links ps es ls)"
          unfolding run_links_def
          using prefix_concat_take[of policy_links j ls] by (simp add: prefix_prefix)
        ultimately show ?thesis using e3 by simp
      next
        case d3: True
        with d1 d2 have "fst (ingest_records embedF ps es ls s) = Done"
          by (simp add: ingest_records_unfold Let_def)
        then have "ingest_records embedF ps es ls s = (Done, snd (ingest_records embedF ps es ls s))"
          by (simp add: prod_eq_iff)
        from ingest_records_done[OF this] show ?thesis by auto
      qed
    qed
  qed
qed

lemma ingestAll_edges:
  "truthy key \<Longrightarrow>
   edges (ingestAll key embedF pj ej lj s) =
     edges (snd (ingest_try embedF pj ej lj (s\<lparr>error := [], loadingIngest := True\<rparr>)))
   \<and> nodesMap (ingestAll key embedF pj ej lj s) =
     nodesMap (snd (ingest_try embedF pj ej lj (s\<lparr>error := [], loadingIngest := True\<rparr>)))"
  by (cases "fst (ingest_try embedF pj ej lj (s\<lparr>error := [], loadingIngest := True\<rparr>))")
     (simp_all add: ingestAll_unfold Let_def)

lemma ingestAll_links_prefix:
  assumes "truthy key \<or> resetGraph s = s"
  shows "prefix (edges (ingestAll key embedF (Some ps) (Some es) (Some ls) s)) (run_links ps es ls)"
proof (cases "truthy key")
  case True
  from records_links_prefix[of embedF ps es ls "resetGraph (s\<lparr>error := [], loadingIngest := True\<rparr>)"]
  show ?thesis
    by (auto simp: ingestAll_edges[OF True] ingest_try_records resetGraph_def)
next
  case False
  with assms have "resetGraph s = s" by simp
  then have "edges (resetGraph s) = edges s" by simp
  then have "edges s = []" by (simp add: resetGraph_def)
  with False show ?thesis by (simp add: ingestAll_def)
qed

lemma ingestAll_store_irrelevant:
  "truthy key \<Longrightarrow>
   ingestAll key embedF pj ej lj
     (s\<lparr>nodesMap := n, edges := e, embeddings := m, selectedNodeId := i, selectedNodeSummary := a,
        ragAnswer := b, ragContexts := c\<rparr>)
     = ingestAll key embedF pj ej lj s"
  by (simp add: ingestAll_def ingest_try_def resetGraph_def)

lemma reset_fixed_fields:
  assumes "resetGraph s = s"
  shows "nodesMap s = [] \<and> edges s = [] \<and> embeddings s = [] \<and> selectedNodeId s = None
       \<and> selectedNodeSummary s = [] \<and> ragAnswer s = [] \<and> ragContexts s = []"
proof -
  have f: "nodesMap (resetGraph s) = nodesMap s" "edges (resetGraph s) = edges s"
    "embeddings (resetGraph s) = embeddings s" "selectedNodeId (resetGraph s) = selectedNodeId s"
    "selectedNodeSummary (resetGraph s) = selectedNodeSummary s" "ragAnswer (resetGraph s) = ragAnswer s"
    "ragContexts (resetGraph s) = ragContexts s"
    by (simp_all add: assms)
  then show ?thesis by (simp add: resetGraph_def)
qed

lemma reset_idem: "resetGraph (resetGraph s) = resetGraph s"
  by (simp add: resetGraph_def)

lemma reset_error: "resetGraph (s\<lparr>error := m\<rparr>) = (resetGraph s)\<lparr>error := m\<rparr>"
  by (simp add: resetGraph_def)

lemma ingestAll_after_reset:
  assumes "truthy key \<or> resetGraph s = s"
  shows "ingestAll key embedF pj ej lj (resetGraph s) = ingestAll key embedF pj ej lj s"
proof (cases "truthy key")
  case True
  then show ?thesis by (simp add: ingestAll_def ingest_try_def resetGraph_def)
next
  case False
  with assms have "resetGraph s = s" by simp
  then show ?thesis by simp
qed

lemma ingestAll_no_key: "\<not> truthy key \<Longrightarrow> ingestAll key embedF pj ej lj s = s\<lparr>error := missing_key_msg\<rparr>"
  by (simp add: ingestAll_def)

lemma submitRagQuery_no_key:
  "\<not> truthy key \<Longrightarrow> submitRagQuery key embedF generateF s = s\<lparr>error := missing_key_msg\<rparr>"
  by (simp add: submitRagQuery_def)

lemma no_key_stays_reset:
  assumes "\<not> truthy key" and "resetGraph s = s"
  shows "resetGraph (ingestAll key embedF pj ej lj s) = ingestAll key embedF pj ej lj s"
    and "resetGraph (submitRagQuery key embedF generateF s) = submitRagQuery key embedF generateF s"
  using assms by (simp_all add: ingestAll_no_key submitRagQuery_no_key reset_error)

lemma initial_app_reset: "resetGraph (initial_app w) = initial_app w"
  by (simp add: resetGraph_def initial_app_def)

lemma ingestAll_cleared:
  assumes "truthy key \<or> resetGraph s = s"
  shows "selectedNodeId (ingestAll key embedF pj ej lj s) = None
       \<and> selectedNodeSummary (ingestAll key embedF pj ej lj s) = []
       \<and> ragAnswer (ingestAll key embedF pj ej lj s) = []
       \<and> ragContexts (ingestAll key embedF pj ej lj s) = []"
proof (cases "truthy key")
  case True
  let ?rs = "ingest_try embedF pj ej lj (s\<lparr>error := [], loadingIngest := True\<rparr>)"
  note r = try_reset_fields[of embedF pj ej lj "s\<lparr>error := [], loadingIngest := True\<rparr>"]
  show ?thesis
    using r by (cases "fst ?rs") (simp_all add: ingestAll_unfold[OF True] Let_def)
next
  case False
  with assms have "resetGraph s = s" by simp
  from reset_fixed_fields[OF this] False show ?thesis by (simp add: ingestAll_no_key)
qed

lemma missing_key_msg_nonempty: "missing_key_msg \<noteq> []"
  by (simp add: missing_key_msg_def)

lemma ingestAll_done_graph:
  assumes ok: "error (ingestAll key embedF pj ej lj s) = []"
  shows "\<exists>ps es ls. pj = Some ps \<and> ej = Some es \<and> lj = Some ls
           \<and> nodesMap (ingestAll key embedF pj ej lj s) = run_nodes ps es ls []
           \<and> edges (ingestAll key embedF pj ej lj s) = run_links ps es ls"
proof -
  have key: "truthy key"
    using ok missing_key_msg_nonempty by (cases "truthy key") (simp_all add: ingestAll_no_key)
  from ingestAll_error_done[OF key ok]
  obtain ps es ls s1 where j: "pj = Some ps" "ej = Some es" "lj = Some ls"
    and r1: "ingest_records embedF ps es ls (resetGraph (s\<lparr>error := [], loadingIngest := True\<rparr>)) = (Done, s1)"
    and f1: "ingestAll key embedF pj ej lj s = s1\<lparr>loadingIngest := False\<rparr>"
    by blast
  from ingest_records_done[OF r1]
  have "nodesMap s1 = run_nodes ps es ls [] \<and> edges s1 = run_links ps es ls"
    by (simp add: resetGraph_def)
  with j f1 show ?thesis by simp
qed

lemma ingestAll_again:
  assumes "(error (ingestAll key embedF pj ej lj s) = []
             \<and> error (ingestAll key embedF pj ej lj (ingestAll key embedF pj ej lj s)) = [])
           \<or> text_only embedF"
  shows "nodesMap (ingestAll key embedF pj ej lj (ingestAll key embedF pj ej lj s))
           = nodesMap (ingestAll key embedF pj ej lj s)
       \<and> edges (ingestAll key embedF pj ej lj (ingestAll key embedF pj ej lj s))
           = edges (ingestAll key embedF pj ej lj s)"
proof (cases "truthy key")
  case False
  then show ?thesis by (simp add: ingestAll_no_key)
next
  case key: True
  let ?S = "ingestAll key embedF pj ej lj s"
  show ?thesis
  proof (cases "text_only embedF")
    case True
    from ingestAll_same_graph[OF key True, of pj ej lj ?S s] show ?thesis by simp
  next
    case False
    with assms have ok: "error ?S = []" "error (ingestAll key embedF pj ej lj ?S) = []" by simp_all
    from ingestAll_done_graph[OF ok(1)] ingestAll_done_graph[OF ok(2)] show ?thesis by auto
  qed
qed

text \<open>
  Claim C10.  \<^verbatim>\<open>ingestAll\<close> begins with \<^verbatim>\<open>resetGraph()\<close>, which clears the entities, the
  relationships, the embeddings and the selection and answer state.  So with a key the
  state after a call is the same whatever these seven fields held before (the call on the
  cleared state, and on the state with anything else in these fields, ends in the same
  state), the selection and the answer are cleared after it, the relationships after it are
  an initial part of the relationships that the records give, and when the call completes the
  entities and relationships are exactly those that the records give.  A second call on the
  same input leaves again an initial part of the relationships of the records, never more;
  it leaves the entities and relationships of the first call when both calls complete or the
  provider answers by the text alone.  The key is a constant of the module: without one no
  call ingests or retrieves and the graph has no node to select, so the store stays as
  \<^verbatim>\<open>resetGraph()\<close> leaves it (lemmas \<open>initial_app_reset\<close> and \<open>no_key_stays_reset\<close>), and
  of such a state all the above holds too.
\<close>

theorem ingest_starts_from_empty:
  assumes "truthy key \<or> resetGraph s = s"
  shows "(let S = ingestAll key embedF pj ej lj s;
              S' = ingestAll key embedF pj ej lj S
          in ingestAll key embedF pj ej lj (resetGraph s) = S
           \<and> (truthy key \<longrightarrow>
                (\<forall>n e m i a b c.
                   ingestAll key embedF pj ej lj
                     (s\<lparr>nodesMap := n, edges := e, embeddings := m, selectedNodeId := i,
                        selectedNodeSummary := a, ragAnswer := b, ragContexts := c\<rparr>) = S))
           \<and> (truthy key \<and> text_only embedF \<longrightarrow>
                (\<forall>t. nodesMap (ingestAll key embedF pj ej lj t) = nodesMap S
                    \<and> edges (ingestAll key embedF pj ej lj t) = edges S
                    \<and> embeddings (ingestAll key embedF pj ej lj t) = embeddings S))
           \<and> selectedNodeId S = None \<and> selectedNodeSummary S = []
           \<and> ragAnswer S = [] \<and> ragContexts S = []
           \<and> (\<forall>ps es ls. pj = Some ps \<and> ej = Some es \<and> lj = Some ls \<longrightarrow>
                  prefix (edges S) (run_links ps es ls) \<and> prefix (edges S') (run_links ps es ls)
                \<and> (error S = [] \<longrightarrow> nodesMap S = run_nodes ps es ls [] \<and> edges S = run_links ps es ls))
           \<and> ((error S = [] \<and> error S' = []) \<or> text_only embedF
                  \<longrightarrow> nodesMap S' = nodesMap S \<and> edges S' = edges S)
           \<and> (truthy key \<or> resetGraph S = S))"
proof -
  let ?S = "ingestAll key embedF pj ej lj s"
  let ?S' = "ingestAll key embedF pj ej lj ?S"
  have inv: "truthy key \<or> resetGraph ?S = ?S"
  proof (cases "truthy key")
    case True
    then show ?thesis by simp
  next
    case False
    with assms have "resetGraph s = s" by simp
    with no_key_stays_reset(1)[OF False this] show ?thesis by simp
  qed
  have a: "ingestAll key embedF pj ej lj (resetGraph s) = ?S"
    using assms by (rule ingestAll_after_reset)
  have b: "\<forall>n e m i a b c.
                   ingestAll key embedF pj ej lj
                     (s\<lparr>nodesMap := n, edges := e, embeddings := m, selectedNodeId := i,
                        selectedNodeSummary := a, ragAnswer := b, ragContexts := c\<rparr>) = ?S"
    if "truthy key"
    using that by (simp only: ingestAll_store_irrelevant) simp
  have c: "\<forall>t. nodesMap (ingestAll key embedF pj ej lj t) = nodesMap ?S
                    \<and> edges (ingestAll key embedF pj ej lj t) = edges ?S
                    \<and> embeddings (ingestAll key embedF pj ej lj t) = embeddings ?S"
    if "truthy key \<and> text_only embedF"
  proof
    fix t
    from that ingestAll_same_graph[of key embedF pj ej lj t s]
    show "nodesMap (ingestAll key embedF pj ej lj t) = nodesMap ?S
                    \<and> edges (ingestAll key embedF pj ej lj t) = edges ?S
                    \<and> embeddings (ingestAll key embedF pj ej lj t) = embeddings ?S"
      by simp
  qed
  note d = ingestAll_cleared[OF assms, of embedF pj ej lj]
  have e: "prefix (edges ?S) (run_links ps es ls) \<and> prefix (edges ?S') (run_links ps es ls)
                \<and> (error ?S = [] \<longrightarrow> nodesMap ?S = run_nodes ps es ls [] \<and> edges ?S = run_links ps es ls)"
    if j: "pj = Some ps \<and> ej = Some es \<and> lj = Some ls" for ps es ls
  proof -
    have p1: "prefix (edges ?S) (run_links ps es ls)"
      using ingestAll_links_prefix[OF assms, of embedF ps es ls] j by simp
    have p2: "prefix (edges ?S') (run_links ps es ls)"
      using ingestAll_links_prefix[OF inv, of embedF ps es ls] j by simp
    have p3: "nodesMap ?S = run_nodes ps es ls [] \<and> edges ?S = run_links ps es ls" if "error ?S = []"
      using ingestAll_done_graph[OF that] j by simp
    from p1 p2 p3 show ?thesis by blast
  qed
  have f: "nodesMap ?S' = nodesMap ?S \<and> edges ?S' = edges ?S"
    if "(error ?S = [] \<and> error ?S' = []) \<or> text_only embedF"
    using that by (rule ingestAll_again)
  show ?thesis
    unfolding Let_def
    using a b c d e f inv by blast
qed

theorem ingest_starts_from_empty_witness:
  "truthy api_key
   \<and> map fst (nodesMap storm_app) = [''event:e1'', ''location:X'']
   \<and> ingestAll api_key embed_unit (Some [blackout_paper]) (Some [storm_event]) (Some [])
        (resetGraph storm_app) = rerun_app
   \<and> error rerun_app = [] \<and> error rerun_twice = []
   \<and> map fst (nodesMap rerun_app) = [''paper:p1'', ''event:e1'', ''location:X'']
   \<and> nodesMap rerun_app = run_nodes [blackout_paper] [storm_event] [] []
   \<and> edges rerun_app = run_links [blackout_paper] [storm_event] []
   \<and> length (edges rerun_app) = 2
   \<and> nodesMap rerun_twice = nodesMap rerun_app \<and> edges rerun_twice = edges rerun_app
   \<and> selectedNodeId rerun_app = None \<and> ragAnswer rerun_app = []
   \<and> text_only embed_unit
   \<and> nodesMap (ingestAll api_key embed_unit (Some [blackout_paper]) (Some [storm_event]) (Some [])
                  (initial_app 7)) = nodesMap rerun_app
   \<and> \<not> truthy Undefined \<and> resetGraph (initial_app (0::nat)) = initial_app 0
   \<and> edges (ingestAll Undefined embed_unit (Some [blackout_paper]) (Some [storm_event]) (Some [])
               (initial_app 0)) = []"
proof -
  have k: "truthy api_key" by (simp add: api_key_def)
  have n0: "map fst (nodesMap storm_app) = [''event:e1'', ''location:X'']" by (simp add: ev2)
  have n1: "map fst (nodesMap rerun_app) = [''paper:p1'', ''event:e1'', ''location:X'']"
    by (simp add: rerun_app_def ev2)
  have l: "length (edges rerun_app) = 2" by (simp add: rerun_app_def ev2)
  have e1: "error rerun_app = []" by (simp add: rerun_app_def ev2)
  have e2: "error rerun_twice = []" by (simp add: rerun_twice_def rerun_app_def ev2)
  have u: "\<not> truthy Undefined" by simp
  have i: "resetGraph (initial_app (0::nat)) = initial_app 0" by (simp add: resetGraph_def initial_app_def)
  note t = ingest_starts_from_empty[OF disjI1[OF k], where s = storm_app and embedF = embed_unit
      and pj = "Some [blackout_paper]" and ej = "Some [storm_event]" and lj = "Some []",
      unfolded Let_def, folded rerun_app_def, folded rerun_twice_def]
  note v = ingest_starts_from_empty[OF disjI2[OF i], where key = Undefined and embedF = embed_unit
      and pj = "Some [blackout_paper]" and ej = "Some [storm_event]" and lj = "Some []",
      unfolded Let_def]
  from t have a: "ingestAll api_key embed_unit (Some [blackout_paper]) (Some [storm_event]) (Some [])
        (resetGraph storm_app) = rerun_app" by blast
  from t e1 have b: "nodesMap rerun_app = run_nodes [blackout_paper] [storm_event] [] []
      \<and> edges rerun_app = run_links [blackout_paper] [storm_event] []" by blast
  from t e1 e2 have c: "nodesMap rerun_twice = nodesMap rerun_app \<and> edges rerun_twice = edges rerun_app"
    by blast
  from t have d: "selectedNodeId rerun_app = None \<and> ragAnswer rerun_app = []" by blast
  have det: "text_only embed_unit" by (simp add: text_only_def embed_unit_def)
  from t k det have g: "nodesMap (ingestAll api_key embed_unit (Some [blackout_paper]) (Some [storm_event]) (Some [])
                  (initial_app 7)) = nodesMap rerun_app"
    by blast
  from v have "prefix (edges (ingestAll Undefined embed_unit (Some [blackout_paper]) (Some [storm_event]) (Some [])
               (initial_app 0))) (run_links [blackout_paper] [storm_event] [])
      \<and> edges (ingestAll Undefined embed_unit (Some [blackout_paper]) (Some [storm_event]) (Some [])
               (initial_app 0)) = edges (initial_app (0::nat))"
    by (simp add: ingestAll_def)
  then have f: "edges (ingestAll Undefined embed_unit (Some [blackout_paper]) (Some [storm_event]) (Some [])
               (initial_app 0)) = []"
    by (simp add: initial_app_def)
  show ?thesis
    using b c d by (intro conjI k n0 a e1 e2 n1 l det g u i f) blast+
qed

section \<open>Re-running after a reset\<close>

text \<open>
  Claim C5, amended.  Call \<^verbatim>\<open>resetGraph()\<close>, ingest, and ingest the same records again,
  with a call of \<^verbatim>\<open>resetGraph()\<close> between the two runs or without one.  The second run ends
  in the same state either way, because \<^verbatim>\<open>ingestAll\<close> itself begins with \<^verbatim>\<open>resetGraph()\<close>.
  If both runs complete (no embedding request fails), or if the provider's answer is a
  function of the request text, the second run ends as the first did: the same entities with
  the same attributes, the same relationships, the same error message and the same metric
  snapshot.  A completed run leaves exactly the entities and relationships that the records
  give, and no run, repeated or not, leaves more relationships than the records give: nothing
  is appended twice.
\<close>

theorem reingest_after_reset:
  "(let S1 = ingestAll key embedF pj ej lj (resetGraph s);
        S2 = ingestAll key embedF pj ej lj (resetGraph S1);
        S3 = ingestAll key embedF pj ej lj S1
    in S3 = S2
     \<and> ((error S1 = [] \<and> error S2 = []) \<or> text_only embedF \<longrightarrow>
           nodesMap S2 = nodesMap S1 \<and> edges S2 = edges S1
         \<and> metrics (nodesMap S2) (edges S2) = metrics (nodesMap S1) (edges S1))
     \<and> (\<forall>ps es ls. pj = Some ps \<and> ej = Some es \<and> lj = Some ls \<longrightarrow>
            (error S1 = [] \<longrightarrow> nodesMap S1 = run_nodes ps es ls [] \<and> edges S1 = run_links ps es ls)
          \<and> length (edges S1) \<le> length (run_links ps es ls)
          \<and> length (edges S3) \<le> length (run_links ps es ls)))"
proof -
  let ?S1 = "ingestAll key embedF pj ej lj (resetGraph s)"
  let ?S2 = "ingestAll key embedF pj ej lj (resetGraph ?S1)"
  let ?S3 = "ingestAll key embedF pj ej lj ?S1"
  have h0: "truthy key \<or> resetGraph (resetGraph s) = resetGraph s"
    by (simp add: reset_idem)
  have h1: "truthy key \<or> resetGraph ?S1 = ?S1"
  proof (cases "truthy key")
    case True
    then show ?thesis by simp
  next
    case False
    have "resetGraph ?S1 = ?S1" by (rule no_key_stays_reset(1)[OF False reset_idem])
    then show ?thesis by (rule disjI2)
  qed
  have a: "?S3 = ?S2"
    using ingestAll_after_reset[OF h1, of embedF pj ej lj] by simp
  have b: "nodesMap ?S2 = nodesMap ?S1 \<and> edges ?S2 = edges ?S1
         \<and> metrics (nodesMap ?S2) (edges ?S2) = metrics (nodesMap ?S1) (edges ?S1)"
    if "(error ?S1 = [] \<and> error ?S2 = []) \<or> text_only embedF"
  proof -
    from that have "(error ?S1 = [] \<and> error ?S3 = []) \<or> text_only embedF"
      unfolding a .
    from ingestAll_again[OF this] show ?thesis
      unfolding a by simp
  qed
  have c: "(error ?S1 = [] \<longrightarrow> nodesMap ?S1 = run_nodes ps es ls [] \<and> edges ?S1 = run_links ps es ls)
          \<and> length (edges ?S1) \<le> length (run_links ps es ls)
          \<and> length (edges ?S3) \<le> length (run_links ps es ls)"
    if j: "pj = Some ps \<and> ej = Some es \<and> lj = Some ls" for ps es ls
  proof -
    have p1: "prefix (edges ?S1) (run_links ps es ls)"
      using ingestAll_links_prefix[OF h0, of embedF ps es ls] j by simp
    have p3: "prefix (edges ?S3) (run_links ps es ls)"
      using ingestAll_links_prefix[OF h1, of embedF ps es ls] j by simp
    have d: "nodesMap ?S1 = run_nodes ps es ls [] \<and> edges ?S1 = run_links ps es ls" if "error ?S1 = []"
      using ingestAll_done_graph[OF that] j by simp
    from p1 p3 d show ?thesis by (auto dest: prefix_length_le)
  qed
  show ?thesis
    unfolding Let_def using a b c by blast
qed

theorem reingest_after_reset_witness:
  "first_app = ingestAll api_key embed_unit (Some [blackout_paper]) (Some [storm_event]) (Some [])
                 (resetGraph (initial_app 0))
   \<and> error first_app = [] \<and> error reset_again_app = []
   \<and> again_app = reset_again_app
   \<and> nodesMap reset_again_app = nodesMap first_app \<and> edges reset_again_app = edges first_app
   \<and> metrics (nodesMap reset_again_app) (edges reset_again_app)
       = metrics (nodesMap first_app) (edges first_app)
   \<and> map fst (nodesMap first_app) = [''paper:p1'', ''event:e1'', ''location:X'']
   \<and> edges first_app = run_links [blackout_paper] [storm_event] []
   \<and> length (edges first_app) = 2 \<and> length (edges again_app) = 2"
proof -
  have i: "resetGraph (initial_app (0::nat)) = initial_app 0" by (simp add: resetGraph_def initial_app_def)
  have f: "first_app = ingestAll api_key embed_unit (Some [blackout_paper]) (Some [storm_event]) (Some [])
                 (resetGraph (initial_app 0))"
    by (simp only: i first_app_def)
  have e1: "error first_app = []" by (simp add: first_app_def ev)
  have e2: "error reset_again_app = []" by (simp add: reset_again_app_def first_app_def ev)
  have n: "map fst (nodesMap first_app) = [''paper:p1'', ''event:e1'', ''location:X'']"
    by (simp add: first_app_def ev)
  have l: "length (edges first_app) = 2" by (simp add: first_app_def ev)
  note t = reingest_after_reset[where key = api_key and embedF = embed_unit
      and pj = "Some [blackout_paper]" and ej = "Some [storm_event]" and lj = "Some []"
      and s = "initial_app 0", unfolded Let_def, folded f, folded reset_again_app_def again_app_def]
  from t have a: "again_app = reset_again_app" by blast
  from t e1 e2 have b: "nodesMap reset_again_app = nodesMap first_app \<and> edges reset_again_app = edges first_app
      \<and> metrics (nodesMap reset_again_app) (edges reset_again_app)
          = metrics (nodesMap first_app) (edges first_app)"
    by blast
  from t e1 have c: "edges first_app = run_links [blackout_paper] [storm_event] []" by blast
  from a b l have l2: "length (edges again_app) = 2" by simp
  show ?thesis
    using b by (intro conjI f e1 e2 a n c l l2) blast+
qed

text \<open>
  The claim as stated fails on both counts.  Run twice with no call of \<^verbatim>\<open>resetGraph()\<close>
  between the runs, the ingestion leaves the two relationships of the first run, not four.
  And with a provider that answers two requests and then fails, the run after
  \<^verbatim>\<open>resetGraph()\<close> on the same records ends with an error and no entity, where the first run
  had three.
\<close>

theorem rerun_appends_nothing:
  "again_app = ingestAll api_key embed_unit (Some [blackout_paper]) (Some [storm_event]) (Some []) first_app
   \<and> error first_app = [] \<and> error again_app = []
   \<and> length (edges first_app) = 2
   \<and> edges again_app = edges first_app
   \<and> edges again_app \<noteq> edges first_app @ edges first_app
   \<and> error flaky_app = []
   \<and> map fst (nodesMap flaky_app) = [''paper:p1'', ''event:e1'', ''location:X'']
   \<and> flaky_again_app
       = ingestAll api_key (embed_quota 2) (Some [blackout_paper]) (Some [storm_event]) (Some [])
           (resetGraph flaky_app)
   \<and> error flaky_again_app = ''Embedding error: quota''
   \<and> nodesMap flaky_again_app = []"
proof -
  have e1: "error first_app = []" by (simp add: first_app_def ev)
  have e2: "error again_app = []" by (simp add: again_app_def first_app_def ev)
  have l: "length (edges first_app) = 2" by (simp add: first_app_def ev)
  have s: "edges again_app = edges first_app" by (simp add: again_app_def first_app_def ev)
  have d: "edges again_app \<noteq> edges first_app @ edges first_app"
    using l s by (metis add_cancel_right_right length_append zero_neq_numeral)
  have f1: "error flaky_app = []" by (simp add: flaky_app_def ev)
  have f2: "map fst (nodesMap flaky_app) = [''paper:p1'', ''event:e1'', ''location:X'']"
    by (simp add: flaky_app_def ev)
  have f3: "error flaky_again_app = ''Embedding error: quota''"
    by (simp add: flaky_again_app_def flaky_app_def ev)
  have f4: "nodesMap flaky_again_app = []"
    by (simp add: flaky_again_app_def flaky_app_def ev)
  show ?thesis
    by (intro conjI again_app_def e1 e2 l s d f1 f2 flaky_again_app_def f3 f4)
qed

end
